theory Spec2Isabelle
  imports Main "HOL-Library.AList" "HOL-Library.Multiset"
begin

section \<open>Data model of the matchmaking service\<close>

text \<open>
  The embedding follows \<^verbatim>\<open>matchmaking.service.ts\<close> (class \<^verbatim>\<open>MatchmakingService\<close>).

  \<^item> JavaScript numbers (elo, timestamps, \<^verbatim>\<open>rangeFactor\<close>) are modelled as \<open>int\<close>: every
    number the service computes is a sum, difference or product of integer inputs, which
    double arithmetic performs exactly below \<open>2^53\<close>.
  \<^item> A \<^verbatim>\<open>Map<string, V>\<close> is an association list in insertion order with
    \<open>map_of\<close> for \<^verbatim>\<open>get\<close>/\<^verbatim>\<open>has\<close>, \<open>AList.update\<close> for \<^verbatim>\<open>set\<close> (an existing key keeps
    its position, a new key goes last) and \<open>AList.delete\<close> for \<^verbatim>\<open>delete\<close>.
  \<^item> A \<^verbatim>\<open>Set<string>\<close> is a \<open>string set\<close>.
  \<^item> A thrown \<^verbatim>\<open>Error\<close> is a value of type \<open>error\<close>; a handler returns \<open>error + state\<close>.
    Every \<^verbatim>\<open>throw\<close> of the service precedes the handler's first mutation, so \<open>Inl\<close>
    carries no state: the state after a rejected call is the state before it.
  \<^item> \<^verbatim>\<open>Date.now()\<close> is the parameter \<open>now\<close> of each handler.
\<close>

datatype Status = PENDING | ACCEPTED | DECLINED

record PlayerRef =
  userId :: string
  socketId :: string
  elo :: int

record QueuedPlayer = PlayerRef +
  joinTime :: int
  rangeFactor :: int
  priority :: bool

record MatchPlayer = PlayerRef +
  status :: Status

record PendingMatch =
  matchId :: string
  expiresAt :: int
  player1 :: MatchPlayer
  player2 :: MatchPlayer
  timeoutId :: "nat option"

text \<open>Rows of the \<^verbatim>\<open>penalties\<close> table (\<^verbatim>\<open>data/init.sql\<close>).\<close>

record Penalty =
  user_id :: string
  reason :: string
  expires_at :: int

record SessionLog =
  log_id :: string
  log_player1Id :: string
  log_player2Id :: string
  log_status :: string
  log_startedAt :: int

record CreateGameInput =
  gameId :: string
  player1Id :: string
  player2Id :: string

text \<open>The typed outcome of \<^verbatim>\<open>GameService.createGame\<close>:
  \<^verbatim>\<open>{success: true, gameId}\<close> or \<^verbatim>\<open>{success: false, error, message}\<close>.\<close>

datatype CreateGameResponse =
    GameCreated string
  | GameFailed string string

text \<open>The messages of the \<^verbatim>\<open>Error\<close>s the service throws.\<close>

datatype error =
    Banned int                    \<comment> \<open>\<^verbatim>\<open>You are banned until <expires_at>\<close>\<close>
  | UserAlreadyInQueue            \<comment> \<open>\<^verbatim>\<open>User already in queue\<close>\<close>
  | UserAlreadyInPendingMatch     \<comment> \<open>\<^verbatim>\<open>User already in a pending match\<close>\<close>
  | SocketAlreadyActive           \<comment> \<open>\<^verbatim>\<open>Socket already active\<close>\<close>
  | MatchNotFound                 \<comment> \<open>\<^verbatim>\<open>Match not found or expired\<close>\<close>
  | NotParticipant                \<comment> \<open>\<^verbatim>\<open>User is not a participant in this match\<close>\<close>

text \<open>The spec's error kind \<open>AlreadyQueued\<close> covers the two duplicate-user messages.\<close>

definition AlreadyQueued :: "error \<Rightarrow> bool" where
  "AlreadyQueued err = (err = UserAlreadyInQueue \<or> err = UserAlreadyInPendingMatch)"

text \<open>Outbound socket events with their payloads, and where they are sent.\<close>

datatype event =
    queue_stats nat nat                      \<comment> \<open>size, pending\<close>
  | match_proposal string int int            \<comment> \<open>matchId, expiresAt, opponentElo\<close>
  | match_confirmed string string string     \<comment> \<open>gameId, player1Id, player2Id\<close>
  | match_failed string string string string \<comment> \<open>matchId, reason, errorCode, message\<close>
  | match_cancelled string string            \<comment> \<open>reason, matchId\<close>
  | queue_joined string int int bool         \<comment> \<open>userId, elo, timestamp, priority\<close>

datatype target = Broadcast | To string

text \<open>The \<^verbatim>\<open>console.error\<close> calls of the service's catch blocks.\<close>

datatype logged =
    FailedSessionLog string          \<comment> \<open>matchId\<close>
  | FailedPenalty string             \<comment> \<open>userId\<close>
  | FailedRequeue string error       \<comment> \<open>userId and the rejection\<close>

text \<open>
  What the service does not define itself is collected in \<open>env\<close>: the constants of
  \<^verbatim>\<open>constants.ts\<close> (not among the sources, so they are parameters), the UUID generator
  (\<^verbatim>\<open>randomUUID()\<close> is the generator applied to the number of UUIDs drawn so far) and
  which calls of the storage layer throw.
\<close>

record env =
  BASE_TOLERANCE :: int
  EXPANSION_INTERVAL_MS :: int
  EXPANSION_STEP :: int
  randomUUID :: "nat \<Rightarrow> string"
  addPenaltyThrows :: "string \<Rightarrow> bool"
  createSessionLogThrows :: "string \<Rightarrow> bool"

definition MATCH_ACCEPT_TIMEOUT_MS :: int where
  "MATCH_ACCEPT_TIMEOUT_MS = 15000"

definition PENALTY_DURATION_SECONDS :: int where
  "PENALTY_DURATION_SECONDS = 300"

text \<open>
  The fields of the service object, the collaborators' observable state, and the
  runtime's timers.
  \<^item> \<open>server\<close>: whether \<^verbatim>\<open>setServer\<close> has attached the socket server.
  \<^item> \<open>timers\<close>: the pending \<^verbatim>\<open>setTimeout\<close> alarms, each with the \<^verbatim>\<open>matchId\<close> its callback
    closes over; \<open>nextTimeoutId\<close> numbers them.
  \<^item> \<open>penalties\<close> and \<open>penaltyCalls\<close>: the penalty table and the calls of \<^verbatim>\<open>addPenalty\<close>
    (user, duration in seconds, reason), recorded whether or not the call throws.
  \<^item> \<open>gameCalls\<close>: the calls of \<^verbatim>\<open>GameService.createGame\<close>; \<open>awaiting\<close>: the
    \<^verbatim>\<open>finalizeMatch\<close> activations suspended at \<^verbatim>\<open>await createGame\<close>, each holding its match.
  \<^item> \<open>emitted\<close>: the events handed to the socket server, oldest first.
  \<^item> \<open>errorLog\<close>: the \<^verbatim>\<open>console.error\<close> calls. A rejected re-queue is logged by a
    \<^verbatim>\<open>.catch\<close> callback that the runtime runs after the synchronous part of the handler;
    the model records it at the call, so only the content of \<open>errorLog\<close> is meaningful.
\<close>

record state =
  server :: bool
  activeQueue :: "(string \<times> QueuedPlayer) list"
  activeSockets :: "string set"
  pendingMatches :: "(string \<times> PendingMatch) list"
  timers :: "(nat \<times> string) list"
  nextTimeoutId :: nat
  uuidCount :: nat
  penalties :: "Penalty list"
  penaltyCalls :: "(string \<times> int \<times> string) list"
  sessionLogs :: "SessionLog list"
  gameCalls :: "CreateGameInput list"
  awaiting :: "PendingMatch list"
  emitted :: "(target \<times> event) list"
  errorLog :: "logged list"

definition initState :: state where
  "initState = \<lparr> server = True, activeQueue = [], activeSockets = {}, pendingMatches = [],
     timers = [], nextTimeoutId = 0, uuidCount = 0, penalties = [], penaltyCalls = [],
     sessionLogs = [], gameCalls = [], awaiting = [], emitted = [], errorLog = [] \<rparr>"

section \<open>Collaborators\<close>

text \<open>
  Modelled from the spec: \<^verbatim>\<open>createQueuedPlayer\<close> of \<^verbatim>\<open>types.ts\<close>, which is not among the
  sources. The spec's \<open>addPlayer\<close> "constructs a QueuedPlayer with joinTime=now,
  rangeFactor=1.0".
\<close>

definition createQueuedPlayer :: "int \<Rightarrow> string \<Rightarrow> string \<Rightarrow> int \<Rightarrow> bool \<Rightarrow> QueuedPlayer" where
  "createQueuedPlayer now uid sock e prio =
     \<lparr> userId = uid, socketId = sock, elo = e, joinTime = now, rangeFactor = 1, priority = prio \<rparr>"

text \<open>
  Modelled from the spec: \<^verbatim>\<open>PenaltyRepository\<close>, which is not among the sources. The
  spec's active penalty is a "row with \<^verbatim>\<open>expires_at > now\<close>"; \<^verbatim>\<open>addPenalty\<close> inserts a
  row that expires \<open>durationSeconds\<close> later.
\<close>

definition getActivePenalty :: "Penalty list \<Rightarrow> int \<Rightarrow> string \<Rightarrow> Penalty option" where
  "getActivePenalty rows now uid = List.find (\<lambda>p. user_id p = uid \<and> expires_at p > now) rows"

definition addPenalty :: "int \<Rightarrow> string \<Rightarrow> int \<Rightarrow> string \<Rightarrow> Penalty list \<Rightarrow> Penalty list" where
  "addPenalty now uid durationSeconds why rows =
     rows @ [\<lparr> user_id = uid, reason = why, expires_at = now + durationSeconds * 1000 \<rparr>]"

section \<open>Queue state\<close>

definition getQueueStats :: "state \<Rightarrow> nat \<times> nat" where
  "getQueueStats s = (length (activeQueue s), length (pendingMatches s))"

definition emitQueueStats :: "state \<Rightarrow> state" where
  "emitQueueStats s =
     (if server s
      then s\<lparr> emitted := emitted s @ [(Broadcast, queue_stats (fst (getQueueStats s)) (snd (getQueueStats s)))] \<rparr>
      else s)"

text \<open>\<^verbatim>\<open>if (this.server) this.server.to(socketId).emit(...)\<close>\<close>

definition emitTo :: "string \<Rightarrow> event \<Rightarrow> state \<Rightarrow> state" where
  "emitTo sock ev s = (if server s then s\<lparr> emitted := emitted s @ [(To sock, ev)] \<rparr> else s)"

fun isUserInPendingMatchLoop :: "(string \<times> PendingMatch) list \<Rightarrow> string \<Rightarrow> bool" where
  "isUserInPendingMatchLoop [] uid = False"
| "isUserInPendingMatchLoop ((k, m) # ms) uid =
     (if userId (player1 m) = uid \<or> userId (player2 m) = uid then True
      else isUserInPendingMatchLoop ms uid)"

definition isUserInPendingMatch :: "state \<Rightarrow> string \<Rightarrow> bool" where
  "isUserInPendingMatch s uid = isUserInPendingMatchLoop (pendingMatches s) uid"

definition addPlayer :: "int \<Rightarrow> string \<Rightarrow> string \<Rightarrow> int \<Rightarrow> bool \<Rightarrow> state \<Rightarrow> error + state" where
  "addPlayer now uid sock e prio s =
     (case getActivePenalty (penalties s) now uid of
        Some penalty \<Rightarrow> Inl (Banned (expires_at penalty))
      | None \<Rightarrow>
          if map_of (activeQueue s) uid \<noteq> None then Inl UserAlreadyInQueue
          else if isUserInPendingMatch s uid then Inl UserAlreadyInPendingMatch
          else if sock \<in> activeSockets s then Inl SocketAlreadyActive
          else Inr (emitQueueStats
                 (s\<lparr> activeQueue := AList.update uid (createQueuedPlayer now uid sock e prio) (activeQueue s),
                      activeSockets := insert sock (activeSockets s) \<rparr>)))"

text \<open>
  \<^verbatim>\<open>addPlayer\<close> statement by statement, with the state in which the call ends: the error
  it throws, if any, and what the service object holds at that moment. Every \<^verbatim>\<open>throw\<close>
  stands before the first write.
\<close>

definition addPlayer_effect ::
  "int \<Rightarrow> string \<Rightarrow> string \<Rightarrow> int \<Rightarrow> bool \<Rightarrow> state \<Rightarrow> error option \<times> state" where
  "addPlayer_effect now uid sock e prio s =
     (case getActivePenalty (penalties s) now uid of
        Some penalty \<Rightarrow> (Some (Banned (expires_at penalty)), s)
      | None \<Rightarrow>
          if map_of (activeQueue s) uid \<noteq> None then (Some UserAlreadyInQueue, s)
          else if isUserInPendingMatch s uid then (Some UserAlreadyInPendingMatch, s)
          else if sock \<in> activeSockets s then (Some SocketAlreadyActive, s)
          else let player = createQueuedPlayer now uid sock e prio;
                   s1 = s\<lparr> activeQueue := AList.update uid player (activeQueue s) \<rparr>;
                   s2 = s1\<lparr> activeSockets := insert sock (activeSockets s1) \<rparr>
               in (None, emitQueueStats s2))"

text \<open>The \<^verbatim>\<open>for ... of this.activeQueue\<close> loop of \<^verbatim>\<open>removePlayer\<close>: the key of the
  first entry whose player has the socket, the identifier itself when there is none.\<close>

fun resolveSocket :: "(string \<times> QueuedPlayer) list \<Rightarrow> string \<Rightarrow> string" where
  "resolveSocket [] identifier = identifier"
| "resolveSocket ((uid, p) # ps) identifier =
     (if socketId p = identifier then uid else resolveSocket ps identifier)"

definition removePlayer :: "string \<Rightarrow> state \<Rightarrow> state" where
  "removePlayer identifier s =
     (let targetId = (if map_of (activeQueue s) identifier = None
                      then resolveSocket (activeQueue s) identifier else identifier)
      in case map_of (activeQueue s) targetId of
           Some player \<Rightarrow>
             emitQueueStats
               (s\<lparr> activeSockets := activeSockets s - {socketId player},
                    activeQueue := AList.delete targetId (activeQueue s) \<rparr>)
         | None \<Rightarrow> s)"

text \<open>The state a handler leaves behind: a throwing call changes nothing.\<close>

definition after :: "error + state \<Rightarrow> state \<Rightarrow> state" where
  "after r s = (case r of Inl err \<Rightarrow> s | Inr s' \<Rightarrow> s')"

section \<open>Ready check: accept, decline, timeout\<close>

text \<open>\<^verbatim>\<open>if (match.timeoutId) clearTimeout(match.timeoutId)\<close>\<close>

definition clearTimeout :: "nat option \<Rightarrow> state \<Rightarrow> state" where
  "clearTimeout tid s =
     (case tid of None \<Rightarrow> s
      | Some t \<Rightarrow> s\<lparr> timers := filter (\<lambda>(t', m). t' \<noteq> t) (timers s) \<rparr>)"

definition handleGameCreationSuccess :: "PendingMatch \<Rightarrow> string \<Rightarrow> state \<Rightarrow> state" where
  "handleGameCreationSuccess match gid s =
     (if \<not> server s then s
      else let payload = match_confirmed gid (userId (player1 match)) (userId (player2 match))
           in emitTo (socketId (player2 match)) payload
                (emitTo (socketId (player1 match)) payload s))"

text \<open>
  One round of the \<^verbatim>\<open>for (const player of players)\<close> loop of
  \<^verbatim>\<open>handleGameCreationFailure\<close>. \<^verbatim>\<open>addPlayer\<close> is \<^verbatim>\<open>async\<close> but awaits nothing: its body
  runs to its end or to its \<^verbatim>\<open>throw\<close> inside the call, and the throw becomes a rejected
  promise whose \<^verbatim>\<open>.catch\<close> logs it.
\<close>

definition requeueAfterFailure :: "int \<Rightarrow> MatchPlayer \<Rightarrow> state \<Rightarrow> state" where
  "requeueAfterFailure now player s =
     (let s1 = (case addPlayer now (userId player) (socketId player) (elo player) True s of
                  Inr s' \<Rightarrow> s'
                | Inl err \<Rightarrow> s\<lparr> errorLog := errorLog s @ [FailedRequeue (userId player) err] \<rparr>)
      in emitTo (socketId player) (queue_joined (userId player) (elo player) now True) s1)"

definition handleGameCreationFailure ::
  "int \<Rightarrow> PendingMatch \<Rightarrow> string \<Rightarrow> string \<Rightarrow> state \<Rightarrow> state" where
  "handleGameCreationFailure now match errorCode errorMessage s =
     (let failurePayload = match_failed (matchId match) ''game_creation_failed'' errorCode errorMessage;
          s1 = emitTo (socketId (player2 match)) failurePayload
                 (emitTo (socketId (player1 match)) failurePayload s)
      in requeueAfterFailure now (player2 match) (requeueAfterFailure now (player1 match) s1))"

text \<open>
  \<^verbatim>\<open>finalizeMatch\<close> up to its \<^verbatim>\<open>await this.gameService.createGame(...)\<close>: the timer, the
  index, the session log, and the call itself. The activation is then suspended with its
  match; other handlers run until the Game service answers.
\<close>

definition finalizeMatch_begin :: "env \<Rightarrow> int \<Rightarrow> PendingMatch \<Rightarrow> state \<Rightarrow> state" where
  "finalizeMatch_begin e now match s =
     (let s1 = clearTimeout (timeoutId match) s;
          s2 = s1\<lparr> pendingMatches := AList.delete (matchId match) (pendingMatches s1) \<rparr>;
          s3 = (if createSessionLogThrows e (matchId match)
                then s2\<lparr> errorLog := errorLog s2 @ [FailedSessionLog (matchId match)] \<rparr>
                else s2\<lparr> sessionLogs := sessionLogs s2 @
                       [\<lparr> log_id = matchId match, log_player1Id = userId (player1 match),
                          log_player2Id = userId (player2 match), log_status = ''STARTED'',
                          log_startedAt = now \<rparr>] \<rparr>)
      in s3\<lparr> gameCalls := gameCalls s3 @
                [\<lparr> gameId = matchId match, player1Id = userId (player1 match),
                   player2Id = userId (player2 match) \<rparr>],
              awaiting := awaiting s3 @ [match] \<rparr>)"

text \<open>The rest of \<^verbatim>\<open>finalizeMatch\<close>, run when \<^verbatim>\<open>createGame\<close> has answered.\<close>

definition finalizeMatch_resume ::
  "int \<Rightarrow> PendingMatch \<Rightarrow> CreateGameResponse \<Rightarrow> state \<Rightarrow> state" where
  "finalizeMatch_resume now match gameCreationResult s =
     emitQueueStats
       (case gameCreationResult of
          GameCreated gid \<Rightarrow> handleGameCreationSuccess match gid s
        | GameFailed err msg \<Rightarrow> handleGameCreationFailure now match err msg s)"

text \<open>
  \<^verbatim>\<open>playerRef.status = 'ACCEPTED'\<close> mutates the match object that the index holds under
  the looked-up key, so the model stores the updated match there. The Boolean says
  whether \<^verbatim>\<open>playerRef\<close> is \<^verbatim>\<open>match.player1\<close>.
\<close>

definition acceptAs :: "env \<Rightarrow> int \<Rightarrow> string \<Rightarrow> PendingMatch \<Rightarrow> bool \<Rightarrow> state \<Rightarrow> state" where
  "acceptAs e now mid match first s =
     (let playerRef = (if first then player1 match else player2 match)
      in if status playerRef \<noteq> PENDING then s
         else let match' = (if first then match\<lparr> player1 := playerRef\<lparr> status := ACCEPTED \<rparr> \<rparr>
                            else match\<lparr> player2 := playerRef\<lparr> status := ACCEPTED \<rparr> \<rparr>);
                  s1 = s\<lparr> pendingMatches := AList.update mid match' (pendingMatches s) \<rparr>
              in if status (player1 match') = ACCEPTED \<and> status (player2 match') = ACCEPTED
                 then finalizeMatch_begin e now match' s1
                 else s1)"

definition acceptMatch :: "env \<Rightarrow> int \<Rightarrow> string \<Rightarrow> string \<Rightarrow> state \<Rightarrow> error + state" where
  "acceptMatch e now uid mid s =
     (case map_of (pendingMatches s) mid of
        None \<Rightarrow> Inl MatchNotFound
      | Some match \<Rightarrow>
          if userId (player1 match) = uid then Inr (acceptAs e now mid match True s)
          else if userId (player2 match) = uid then Inr (acceptAs e now mid match False s)
          else Inl NotParticipant)"

text \<open>The body of \<^verbatim>\<open>players.forEach\<close> in \<^verbatim>\<open>cancelMatch\<close>.\<close>

definition cancelParticipant ::
  "env \<Rightarrow> int \<Rightarrow> string \<Rightarrow> string list \<Rightarrow> string \<Rightarrow> MatchPlayer \<Rightarrow> state \<Rightarrow> state" where
  "cancelParticipant e now mid faultyUserIds why p s =
     (if userId p \<in> set faultyUserIds then
        let s1 = s\<lparr> penaltyCalls := penaltyCalls s @
                     [(userId p, PENALTY_DURATION_SECONDS, ''Matchmaking abuse: '' @ why)] \<rparr>;
            s2 = (if addPenaltyThrows e (userId p)
                  then s1\<lparr> errorLog := errorLog s1 @ [FailedPenalty (userId p)] \<rparr>
                  else s1\<lparr> penalties := addPenalty now (userId p) PENALTY_DURATION_SECONDS
                                           (''Matchmaking abuse: '' @ why) (penalties s1) \<rparr>)
        in emitTo (socketId p) (match_cancelled ''penalty_applied'' mid) s2
      else
        let s1 = (case addPlayer now (userId p) (socketId p) (elo p) True s of
                    Inr s' \<Rightarrow> s'
                  | Inl err \<Rightarrow> s\<lparr> errorLog := errorLog s @ [FailedRequeue (userId p) err] \<rparr>)
        in emitTo (socketId p) (queue_joined (userId p) (elo p) now True)
             (emitTo (socketId p) (match_cancelled ''opponent_declined'' mid) s1))"

definition cancelMatch :: "env \<Rightarrow> int \<Rightarrow> PendingMatch \<Rightarrow> string list \<Rightarrow> string \<Rightarrow> state \<Rightarrow> state" where
  "cancelMatch e now match faultyUserIds why s =
     (let s1 = clearTimeout (timeoutId match) s;
          s2 = s1\<lparr> pendingMatches := AList.delete (matchId match) (pendingMatches s1) \<rparr>;
          s3 = cancelParticipant e now (matchId match) faultyUserIds why (player1 match) s2;
          s4 = cancelParticipant e now (matchId match) faultyUserIds why (player2 match) s3
      in emitQueueStats s4)"

definition declineMatch :: "env \<Rightarrow> int \<Rightarrow> string \<Rightarrow> string \<Rightarrow> state \<Rightarrow> error + state" where
  "declineMatch e now uid mid s =
     (case map_of (pendingMatches s) mid of
        None \<Rightarrow> Inl MatchNotFound
      | Some match \<Rightarrow>
          if userId (player1 match) \<noteq> uid \<and> userId (player2 match) \<noteq> uid then Inl NotParticipant
          else Inr (cancelMatch e now match [uid] ''declined'' s))"

definition handleMatchTimeout :: "env \<Rightarrow> int \<Rightarrow> string \<Rightarrow> state \<Rightarrow> state" where
  "handleMatchTimeout e now mid s =
     (case map_of (pendingMatches s) mid of
        None \<Rightarrow> s
      | Some match \<Rightarrow>
          let faultyUsers =
                (if status (player1 match) = PENDING then [userId (player1 match)] else []) @
                (if status (player2 match) = PENDING then [userId (player2 match)] else [])
          in cancelMatch e now match faultyUsers ''timeout'' s)"

section \<open>The matcher tick\<close>

definition handleMatchFound :: "env \<Rightarrow> int \<Rightarrow> QueuedPlayer \<Rightarrow> QueuedPlayer \<Rightarrow> state \<Rightarrow> state" where
  "handleMatchFound e now p1 p2 s =
     (let mid = randomUUID e (uuidCount s);
          expires = now + MATCH_ACCEPT_TIMEOUT_MS;
          tid = nextTimeoutId s;
          pendingMatch = \<lparr> matchId = mid, expiresAt = expires,
             player1 = \<lparr> userId = userId p1, socketId = socketId p1, elo = elo p1, status = PENDING \<rparr>,
             player2 = \<lparr> userId = userId p2, socketId = socketId p2, elo = elo p2, status = PENDING \<rparr>,
             timeoutId = Some tid \<rparr>;
          s1 = s\<lparr> uuidCount := Suc (uuidCount s),
                  activeQueue := AList.delete (userId p2) (AList.delete (userId p1) (activeQueue s)),
                  activeSockets := activeSockets s - {socketId p1} - {socketId p2},
                  timers := timers s @ [(tid, mid)],
                  nextTimeoutId := Suc tid,
                  pendingMatches := AList.update mid pendingMatch (pendingMatches s) \<rparr>
      in emitQueueStats
           (emitTo (socketId p2) (match_proposal mid expires (elo p1))
             (emitTo (socketId p1) (match_proposal mid expires (elo p2)) s1)))"

text \<open>The comparator handed to \<^verbatim>\<open>candidates.sort\<close>.\<close>

definition comparePlayers :: "QueuedPlayer \<Rightarrow> QueuedPlayer \<Rightarrow> int" where
  "comparePlayers a b =
     (if priority a \<and> \<not> priority b then - 1
      else if \<not> priority a \<and> priority b then 1
      else elo a - elo b)"

text \<open>
  \<^verbatim>\<open>Array.prototype.sort\<close> is stable (ECMAScript 2019): it is modelled by the stable
  insertion sort under the comparator, an element going before the first one it does not
  follow.
\<close>

fun insertBy :: "('a \<Rightarrow> 'a \<Rightarrow> int) \<Rightarrow> 'a \<Rightarrow> 'a list \<Rightarrow> 'a list" where
  "insertBy cmp x [] = [x]"
| "insertBy cmp x (y # ys) = (if cmp x y \<le> 0 then x # y # ys else y # insertBy cmp x ys)"

definition sortBy :: "('a \<Rightarrow> 'a \<Rightarrow> int) \<Rightarrow> 'a list \<Rightarrow> 'a list" where
  "sortBy cmp xs = foldr (insertBy cmp) xs []"

definition candidates :: "state \<Rightarrow> QueuedPlayer list" where
  "candidates s = sortBy comparePlayers (map snd (activeQueue s))"

text \<open>
  The inner loop \<^verbatim>\<open>for (let j = i + 1; ...)\<close> over the candidates after \<^verbatim>\<open>playerA\<close>: the
  first \<^verbatim>\<open>playerB\<close> at which the loop breaks, if any.
\<close>

fun findOpponent ::
  "env \<Rightarrow> QueuedPlayer \<Rightarrow> int \<Rightarrow> string set \<Rightarrow> QueuedPlayer list \<Rightarrow> QueuedPlayer option" where
  "findOpponent e playerA toleranceA matchedIds [] = None"
| "findOpponent e playerA toleranceA matchedIds (playerB # rest) =
     (if userId playerB \<in> matchedIds then findOpponent e playerA toleranceA matchedIds rest
      else let eloDiff = \<bar>elo playerB - elo playerA\<bar>;
               toleranceB = BASE_TOLERANCE e * rangeFactor playerB
           in if eloDiff \<le> toleranceA \<and> eloDiff \<le> toleranceB then Some playerB
              else findOpponent e playerA toleranceA matchedIds rest)"

text \<open>\<^verbatim>\<open>if (waitTime > EXPANSION_INTERVAL_MS * playerA.rangeFactor) playerA.rangeFactor += EXPANSION_STEP\<close>\<close>

definition expandRange :: "env \<Rightarrow> int \<Rightarrow> QueuedPlayer \<Rightarrow> QueuedPlayer" where
  "expandRange e now playerA =
     (let waitTime = now - joinTime playerA
      in if waitTime > EXPANSION_INTERVAL_MS e * rangeFactor playerA
         then playerA\<lparr> rangeFactor := rangeFactor playerA + EXPANSION_STEP e \<rparr>
         else playerA)"

text \<open>
  The candidates are the very objects the queue holds, so the expansion of \<^verbatim>\<open>playerA\<close>
  shows in the queue: the entry of the player is replaced by the expanded one.
\<close>

definition storePlayer :: "QueuedPlayer \<Rightarrow> state \<Rightarrow> state" where
  "storePlayer p s =
     s\<lparr> activeQueue := map (\<lambda>(k, q). if k = userId p then (k, p) else (k, q)) (activeQueue s) \<rparr>"

text \<open>
  The outer loop \<^verbatim>\<open>for (let i = 0; ...)\<close>, as a recursion over the candidates from
  index \<open>i\<close> on: the head is \<^verbatim>\<open>candidates[i]\<close>, the tail what the inner loop scans.
\<close>

fun pairCandidates :: "env \<Rightarrow> int \<Rightarrow> QueuedPlayer list \<Rightarrow> string set \<Rightarrow> state \<Rightarrow> state" where
  "pairCandidates e now [] matchedIds s = s"
| "pairCandidates e now (c # rest) matchedIds s =
     (if userId c \<in> matchedIds then pairCandidates e now rest matchedIds s
      else let playerA = expandRange e now c;
               s1 = storePlayer playerA s;
               priorityBonus = (if priority playerA then 2 else 1);
               toleranceA = BASE_TOLERANCE e * rangeFactor playerA * priorityBonus
           in case findOpponent e playerA toleranceA matchedIds rest of
                None \<Rightarrow> pairCandidates e now rest matchedIds s1
              | Some playerB \<Rightarrow>
                  pairCandidates e now rest
                    (insert (userId playerB) (insert (userId playerA) matchedIds))
                    (handleMatchFound e now playerA playerB s1))"

definition matchmakingLoop :: "env \<Rightarrow> int \<Rightarrow> state \<Rightarrow> state" where
  "matchmakingLoop e now s =
     (if length (activeQueue s) < 2 then s
      else pairCandidates e now (candidates s) {} s)"

section \<open>Executions\<close>

text \<open>
  The service is driven by the gateway's calls, the interval timer, the ready-check
  alarms and the answers of the Game service. An alarm fires once and only while it is
  pending; an answer resumes the suspended \<^verbatim>\<open>finalizeMatch\<close> of its game.
\<close>

datatype action =
    AddPlayer string string int bool
  | RemovePlayer string
  | Tick
  | Accept string string
  | Decline string string
  | TimeoutFires nat
  | GameReply string CreateGameResponse

fun takeAwaiting :: "string \<Rightarrow> PendingMatch list \<Rightarrow> (PendingMatch \<times> PendingMatch list) option" where
  "takeAwaiting mid [] = None"
| "takeAwaiting mid (m # ms) =
     (if matchId m = mid then Some (m, ms)
      else case takeAwaiting mid ms of
             None \<Rightarrow> None
           | Some (found, others) \<Rightarrow> Some (found, m # others))"

fun step :: "env \<Rightarrow> int \<Rightarrow> action \<Rightarrow> state \<Rightarrow> state" where
  "step e now (AddPlayer uid sock el prio) s = after (addPlayer now uid sock el prio s) s"
| "step e now (RemovePlayer identifier) s = removePlayer identifier s"
| "step e now Tick s = matchmakingLoop e now s"
| "step e now (Accept uid mid) s = after (acceptMatch e now uid mid s) s"
| "step e now (Decline uid mid) s = after (declineMatch e now uid mid s) s"
| "step e now (TimeoutFires tid) s =
     (case map_of (timers s) tid of
        None \<Rightarrow> s
      | Some mid \<Rightarrow>
          handleMatchTimeout e now mid (s\<lparr> timers := filter (\<lambda>(t', m). t' \<noteq> tid) (timers s) \<rparr>))"
| "step e now (GameReply mid gameCreationResult) s =
     (case takeAwaiting mid (awaiting s) of
        None \<Rightarrow> s
      | Some (match, others) \<Rightarrow>
          finalizeMatch_resume now match gameCreationResult (s\<lparr> awaiting := others \<rparr>))"

fun run :: "env \<Rightarrow> (int \<times> action) list \<Rightarrow> state \<Rightarrow> state" where
  "run e [] s = s"
| "run e ((now, a) # rest) s = run e rest (step e now a s)"

section \<open>Well-formed states\<close>

text \<open>The user ids of the participants of all pending matches.\<close>

fun usersOf :: "(string \<times> PendingMatch) list \<Rightarrow> string list" where
  "usersOf [] = []"
| "usersOf ((k, m) # ms) = userId (player1 m) # userId (player2 m) # usersOf ms"

definition participants :: "state \<Rightarrow> string list" where
  "participants s = usersOf (pendingMatches s)"

text \<open>
  The waiting indices as the service keeps them: a player is stored under its own user
  id, no two waiting players share a socket, and \<open>activeSockets\<close> holds exactly the
  sockets of the waiting players. (The keys of a \<^verbatim>\<open>Map\<close> are distinct by construction.)
\<close>

definition queue_wf :: "state \<Rightarrow> bool" where
  "queue_wf s =
     (distinct (map fst (activeQueue s)) \<and>
      list_all (\<lambda>(k, p). userId p = k) (activeQueue s) \<and>
      distinct (map (\<lambda>(k, p). socketId p) (activeQueue s)) \<and>
      activeSockets s = set (map (\<lambda>(k, p). socketId p) (activeQueue s)))"

text \<open>The player \<^verbatim>\<open>removePlayer\<close> is to act on, in the spec's words: the one waiting
  under the identifier as user id, else the one whose socket the identifier is.\<close>

definition owner :: "state \<Rightarrow> string \<Rightarrow> (string \<times> QueuedPlayer) option" where
  "owner s identifier =
     (case map_of (activeQueue s) identifier of
        Some p \<Rightarrow> Some (identifier, p)
      | None \<Rightarrow> List.find (\<lambda>(uid, p). socketId p = identifier) (activeQueue s))"

text \<open>An identifier that is the user id of one waiting player and the socket id of
  another one.\<close>

definition ambiguous :: "state \<Rightarrow> string \<Rightarrow> bool" where
  "ambiguous s x =
     (map_of (activeQueue s) x \<noteq> None \<and>
      list_ex (\<lambda>(k, p). k \<noteq> x \<and> socketId p = x) (activeQueue s))"

section \<open>Invariant of the service state\<close>

text \<open>
  A pending match is stored under its own id, pairs two users on two sockets, and is
  still open: nobody's status is \<open>DECLINED\<close> (no code path assigns it) and the two are
  not both \<open>ACCEPTED\<close> (that match has been finalized and removed).
\<close>

definition match_wf :: "string \<times> PendingMatch \<Rightarrow> bool" where
  "match_wf = (\<lambda>(k, m).
     matchId m = k \<and>
     socketId (player1 m) \<noteq> socketId (player2 m) \<and>
     status (player1 m) \<noteq> DECLINED \<and> status (player2 m) \<noteq> DECLINED \<and>
     (status (player1 m) = PENDING \<or> status (player2 m) = PENDING))"

definition pending_wf :: "state \<Rightarrow> bool" where
  "pending_wf s = (distinct (map fst (pendingMatches s)) \<and> list_all match_wf (pendingMatches s))"

text \<open>A suspended finalization holds a match of two users on two sockets.\<close>

definition awaiting_wf :: "state \<Rightarrow> bool" where
  "awaiting_wf s =
     list_all (\<lambda>m. userId (player1 m) \<noteq> userId (player2 m) \<and>
                    socketId (player1 m) \<noteq> socketId (player2 m)) (awaiting s)"

text \<open>Invariant 1 of the spec: a user id occurs at most once across the waiting index
  and the participants of the pending matches.\<close>

definition unique_users :: "state \<Rightarrow> bool" where
  "unique_users s = distinct (map fst (activeQueue s) @ participants s)"

definition invariant :: "state \<Rightarrow> bool" where
  "invariant s = (queue_wf s \<and> pending_wf s \<and> awaiting_wf s \<and> unique_users s)"

text \<open>The events an operation emitted, given the states before and after it.\<close>

definition newEvents :: "state \<Rightarrow> state \<Rightarrow> (target \<times> event) list" where
  "newEvents s s' = drop (length (emitted s)) (emitted s')"

text \<open>A sequence of \<^verbatim>\<open>acceptMatch\<close> calls on one match, each with its time and caller.\<close>

definition accepts :: "string \<Rightarrow> (int \<times> string) list \<Rightarrow> (int \<times> action) list" where
  "accepts mid calls = map (\<lambda>(t, uid). (t, Accept uid mid)) calls"

text \<open>The match with both participants \<open>ACCEPTED\<close>, as \<^verbatim>\<open>finalizeMatch\<close> receives it.\<close>

definition acceptedBoth :: "PendingMatch \<Rightarrow> PendingMatch" where
  "acceptedBoth m = m\<lparr> player1 := (player1 m)\<lparr> status := ACCEPTED \<rparr>,
                       player2 := (player2 m)\<lparr> status := ACCEPTED \<rparr> \<rparr>"

text \<open>A match in the index whose handshake is still open.\<close>

definition open_match :: "state \<Rightarrow> string \<Rightarrow> PendingMatch \<Rightarrow> bool" where
  "open_match s mid m =
     (map_of (pendingMatches s) mid = Some m \<and> matchId m = mid \<and>
      userId (player1 m) \<noteq> userId (player2 m) \<and>
      status (player1 m) \<noteq> DECLINED \<and> status (player2 m) \<noteq> DECLINED \<and>
      (status (player1 m) = PENDING \<or> status (player2 m) = PENDING))"

text \<open>Whether both participants have accepted once the given calls are made.\<close>

definition bothAccept :: "PendingMatch \<Rightarrow> (int \<times> string) list \<Rightarrow> bool" where
  "bothAccept m calls =
     ((status (player1 m) = ACCEPTED \<or> userId (player1 m) \<in> snd ` set calls) \<and>
      (status (player2 m) = ACCEPTED \<or> userId (player2 m) \<in> snd ` set calls))"

text \<open>The \<^verbatim>\<open>match_confirmed\<close> events emitted so far, oldest first.\<close>

fun isConfirmed :: "target \<times> event \<Rightarrow> bool" where
  "isConfirmed (tg, match_confirmed gid p1 p2) = True"
| "isConfirmed (tg, ev) = False"

definition confirmations :: "state \<Rightarrow> (target \<times> event) list" where
  "confirmations s = filter isConfirmed (emitted s)"

section \<open>The pairing rule in the spec's words\<close>

text \<open>The composite order of the candidates: priority players first, then ascending elo.\<close>

definition precedes :: "QueuedPlayer \<Rightarrow> QueuedPlayer \<Rightarrow> bool" where
  "precedes a b = (priority a \<and> \<not> priority b \<or> priority a = priority b \<and> elo a \<le> elo b)"

text \<open>
  The match condition: the elo difference is at most the smaller of the two tolerances,
  where only the active player's tolerance carries the priority bonus.
\<close>

definition withinTolerance :: "env \<Rightarrow> QueuedPlayer \<Rightarrow> QueuedPlayer \<Rightarrow> bool" where
  "withinTolerance e playerA playerB =
     (\<bar>elo playerA - elo playerB\<bar> \<le>
        min (BASE_TOLERANCE e * rangeFactor playerA * (if priority playerA then 2 else 1))
            (BASE_TOLERANCE e * rangeFactor playerB))"

text \<open>The first later candidate that is not yet matched and within tolerance.\<close>

definition firstOpponent ::
  "env \<Rightarrow> QueuedPlayer \<Rightarrow> string set \<Rightarrow> QueuedPlayer list \<Rightarrow> QueuedPlayer option" where
  "firstOpponent e playerA matchedIds later =
     List.find (\<lambda>playerB. userId playerB \<notin> matchedIds \<and> withinTolerance e playerA playerB) later"

section \<open>The tick when the socket server throws\<close>

text \<open>
  The tick hands its events to the socket server with \<^verbatim>\<open>this.server.to(socketId).emit(...)\<close>
  and \<^verbatim>\<open>this.server.emit(...)\<close>, and neither \<^verbatim>\<open>handleMatchFound\<close> nor \<^verbatim>\<open>matchmakingLoop\<close>
  nor the callback \<^verbatim>\<open>() => this.matchmakingLoop()\<close> of \<^verbatim>\<open>setInterval\<close> has a handler. Which
  emissions throw is a predicate on the target and the event. An outcome is the state in
  which the code ran to its end, or the state in which an exception left it.
\<close>

datatype outcome = Completed state | Uncaught state



definition andThen :: "outcome \<Rightarrow> (state \<Rightarrow> outcome) \<Rightarrow> outcome" where
  "andThen r f = (case r of Completed s \<Rightarrow> f s | Uncaught s \<Rightarrow> Uncaught s)"






section \<open>Identifiers of users and sockets\<close>

text \<open>
  The service takes user ids and socket ids as strings. Its caller, the gateway, passes
  \<^verbatim>\<open>String(user.id)\<close>, the numeral of the account, as user id and \<^verbatim>\<open>socket.id\<close>, the
  connection identifier of the socket server, as socket id, and it calls \<^verbatim>\<open>removePlayer\<close>
  with the user id. With \<open>U\<close> the strings that are user ids, a player's identifiers are
  apart when its user id is in \<open>U\<close> and its socket id is not.
\<close>

definition ids_ok :: "string set \<Rightarrow> 'a PlayerRef_scheme \<Rightarrow> bool" where
  "ids_ok U p = (userId p \<in> U \<and> socketId p \<notin> U)"

definition ids_apart :: "string set \<Rightarrow> state \<Rightarrow> bool" where
  "ids_apart U s =
     (list_all (\<lambda>(k, p). ids_ok U p) (activeQueue s) \<and>
      list_all (\<lambda>(k, m). ids_ok U (player1 m) \<and> ids_ok U (player2 m)) (pendingMatches s) \<and>
      list_all (\<lambda>m. ids_ok U (player1 m) \<and> ids_ok U (player2 m)) (awaiting s))"

text \<open>\<^verbatim>\<open>handleJoinQueue\<close>: \<^verbatim>\<open>addPlayer(userId, socket.id, effectiveElo)\<close>.\<close>

fun from_gateway :: "string set \<Rightarrow> action \<Rightarrow> bool" where
  "from_gateway U (AddPlayer uid sock el prio) = (uid \<in> U \<and> sock \<notin> U)"
| "from_gateway U a = True"

section \<open>Example executions\<close>

text \<open>The constants are the spec's recommended values; the storage layer never throws.\<close>

definition exampleEnv :: env where
  "exampleEnv = \<lparr> BASE_TOLERANCE = 50, EXPANSION_INTERVAL_MS = 10000, EXPANSION_STEP = 1,
     randomUUID = (\<lambda>n. replicate (Suc n) CHR ''m''), addPenaltyThrows = (\<lambda>u. False),
     createSessionLogThrows = (\<lambda>m. False) \<rparr>"

text \<open>Scenario S2 of the spec: A and B are proposed match \<open>''m''\<close>, and B declines.\<close>

definition declinedState :: state where
  "declinedState =
     run exampleEnv
       [(0, AddPlayer ''A'' ''sA'' 1500 False), (0, AddPlayer ''B'' ''sB'' 1520 False),
        (1000, Tick), (2000, Decline ''B'' ''m'')] initState"

text \<open>The identifier \<open>''x''\<close> is the user id of one waiting player and the socket of
  another.\<close>

definition ambiguousState :: state where
  "ambiguousState =
     run exampleEnv
       [(0, AddPlayer ''x'' ''s1'' 1500 False), (0, AddPlayer ''y'' ''x'' 1500 False)] initState"

text \<open>Scenario S1 of the spec up to the proposal: A and B are proposed match \<open>''m''\<close>.\<close>

definition proposedState :: state where
  "proposedState =
     run exampleEnv
       [(0, AddPlayer ''A'' ''sA'' 1500 False), (0, AddPlayer ''B'' ''sB'' 1520 False),
        (1000, Tick)] initState"

text \<open>Scenario S1 continued: A accepts, then B accepts, which starts the finalization.\<close>

definition acceptedOnceState :: state where
  "acceptedOnceState = step exampleEnv 2000 (Accept ''A'' ''m'') proposedState"

definition bothAcceptedState :: state where
  "bothAcceptedState = step exampleEnv 2500 (Accept ''B'' ''m'') acceptedOnceState"

text \<open>
  Four waiting players, two of them with priority. In processing order they are P1 (elo
  1000), P2 (1080), C (1490) and D (1500).
\<close>

definition priorityState :: state where
  "priorityState =
     run exampleEnv
       [(0, AddPlayer ''C'' ''sC'' 1490 False), (0, AddPlayer ''P1'' ''s1'' 1000 True),
        (0, AddPlayer ''D'' ''sD'' 1500 False), (0, AddPlayer ''P2'' ''s2'' 1080 True)] initState"

text \<open>The same constants with a penalty store that throws on every write; B declines
  the proposed match \<open>''m''\<close> against that store.\<close>

definition failingStoreEnv :: env where
  "failingStoreEnv = exampleEnv\<lparr> addPenaltyThrows := (\<lambda>u. True) \<rparr>"

definition declinedFailingState :: state where
  "declinedFailingState = step failingStoreEnv 2000 (Decline ''B'' ''m'') proposedState"

text \<open>
  While A and B are proposed match \<open>''m''\<close>, a user C joins the queue on the socket
  \<open>''sA''\<close>, which the proposal has freed; then B declines.
\<close>

definition socketTakenState :: state where
  "socketTakenState = step exampleEnv 1500 (AddPlayer ''C'' ''sA'' 1500 False) proposedState"

definition requeueRejectedState :: state where
  "requeueRejectedState = step exampleEnv 2000 (Decline ''B'' ''m'') socketTakenState"

text \<open>
  The same while the finalization of \<open>''m''\<close> waits for the Game service, which then
  answers with a failure.
\<close>

definition socketTakenAwaitingState :: state where
  "socketTakenAwaitingState = step exampleEnv 2700 (AddPlayer ''C'' ''sA'' 1500 False) bothAcceptedState"

definition gameFailedState :: state where
  "gameFailedState =
     step exampleEnv 3000 (GameReply ''m'' (GameFailed ''INVALID_PLAYERS'' ''Invalid players''))
       socketTakenAwaitingState"




text \<open>The penalty store is external to the service: while A waits (after B's decline),
  a ban of A is written to it.\<close>

definition bannedWhileWaitingState :: state where
  "bannedWhileWaitingState =
     declinedState\<lparr> penalties := addPenalty 2500 ''A'' 600 ''reported'' (penalties declinedState) \<rparr>"

section \<open>Basic facts\<close>

lemma after_simps:
  "after (Inl err) s = s" "after (Inr s') s = s'"
  by (simp_all add: after_def)

lemma emitQueueStats_fields [simp]:
  "server (emitQueueStats s) = server s"
  "activeQueue (emitQueueStats s) = activeQueue s"
  "activeSockets (emitQueueStats s) = activeSockets s"
  "pendingMatches (emitQueueStats s) = pendingMatches s"
  "timers (emitQueueStats s) = timers s"
  "nextTimeoutId (emitQueueStats s) = nextTimeoutId s"
  "uuidCount (emitQueueStats s) = uuidCount s"
  "penalties (emitQueueStats s) = penalties s"
  "penaltyCalls (emitQueueStats s) = penaltyCalls s"
  "sessionLogs (emitQueueStats s) = sessionLogs s"
  "gameCalls (emitQueueStats s) = gameCalls s"
  "awaiting (emitQueueStats s) = awaiting s"
  "errorLog (emitQueueStats s) = errorLog s"
  by (simp_all add: emitQueueStats_def)

lemma emitTo_fields [simp]:
  "server (emitTo sock ev s) = server s"
  "activeQueue (emitTo sock ev s) = activeQueue s"
  "activeSockets (emitTo sock ev s) = activeSockets s"
  "pendingMatches (emitTo sock ev s) = pendingMatches s"
  "timers (emitTo sock ev s) = timers s"
  "nextTimeoutId (emitTo sock ev s) = nextTimeoutId s"
  "uuidCount (emitTo sock ev s) = uuidCount s"
  "penalties (emitTo sock ev s) = penalties s"
  "penaltyCalls (emitTo sock ev s) = penaltyCalls s"
  "sessionLogs (emitTo sock ev s) = sessionLogs s"
  "gameCalls (emitTo sock ev s) = gameCalls s"
  "awaiting (emitTo sock ev s) = awaiting s"
  "errorLog (emitTo sock ev s) = errorLog s"
  by (simp_all add: emitTo_def)

lemma participants_frame:
  "pendingMatches s' = pendingMatches s \<Longrightarrow> participants s' = participants s"
  by (simp add: participants_def)

lemma participants_emit [simp]:
  "participants (emitQueueStats s) = participants s"
  "participants (emitTo sock ev s) = participants s"
  by (simp_all add: participants_def)

section \<open>addPlayer\<close>

lemma isUserInPendingMatchLoop_iff:
  "isUserInPendingMatchLoop ms uid \<longleftrightarrow> uid \<in> set (usersOf ms)"
  by (induction ms uid rule: isUserInPendingMatchLoop.induct) auto

lemma isUserInPendingMatch_iff: "isUserInPendingMatch s uid \<longleftrightarrow> uid \<in> set (participants s)"
  by (simp add: isUserInPendingMatch_def participants_def isUserInPendingMatchLoop_iff)

lemma addPlayer_Inr_iff:
  "addPlayer now uid sock e prio s = Inr s' \<longleftrightarrow>
     getActivePenalty (penalties s) now uid = None \<and> map_of (activeQueue s) uid = None \<and>
     uid \<notin> set (participants s) \<and> sock \<notin> activeSockets s \<and>
     s' = emitQueueStats
            (s\<lparr> activeQueue := AList.update uid (createQueuedPlayer now uid sock e prio) (activeQueue s),
                 activeSockets := insert sock (activeSockets s) \<rparr>)"
  by (auto simp: addPlayer_def isUserInPendingMatch_iff split: option.splits)

text \<open>
  Claim C6, as the code has it. \<^verbatim>\<open>addPlayer\<close> runs its checks in the order ban, duplicate
  user, busy socket, and the first one that applies decides the error: \<open>Banned\<close> whenever
  the user has an active penalty; \<open>AlreadyQueued\<close> whenever the user has none and is in
  the waiting index or takes part in a pending match; \<open>SocketAlreadyActive\<close> whenever
  neither holds and the socket is active. The call fails whenever one of the four
  conditions holds, and a failing call ends in the state it started in: no index is
  modified, and a banned user never enters the waiting index. The result of \<^verbatim>\<open>addPlayer\<close>
  used in the executions is this error, or else this final state.
\<close>

theorem addPlayer_first_failing_check:
  "(\<forall>penalty. getActivePenalty (penalties s) now uid = Some penalty \<longrightarrow>
       fst (addPlayer_effect now uid sock e prio s) = Some (Banned (expires_at penalty)))
   \<and> (getActivePenalty (penalties s) now uid = None \<and>
        (uid \<in> fst ` set (activeQueue s) \<or> uid \<in> set (participants s)) \<longrightarrow>
       (\<exists>err. fst (addPlayer_effect now uid sock e prio s) = Some err \<and> AlreadyQueued err))
   \<and> (getActivePenalty (penalties s) now uid = None \<and> uid \<notin> fst ` set (activeQueue s) \<and>
        uid \<notin> set (participants s) \<and> sock \<in> activeSockets s \<longrightarrow>
       fst (addPlayer_effect now uid sock e prio s) = Some SocketAlreadyActive)
   \<and> (getActivePenalty (penalties s) now uid \<noteq> None \<or> uid \<in> fst ` set (activeQueue s) \<or>
        uid \<in> set (participants s) \<or> sock \<in> activeSockets s \<longrightarrow>
       fst (addPlayer_effect now uid sock e prio s) \<noteq> None)
   \<and> (fst (addPlayer_effect now uid sock e prio s) \<noteq> None \<longrightarrow>
       snd (addPlayer_effect now uid sock e prio s) = s)
   \<and> (getActivePenalty (penalties s) now uid \<noteq> None \<longrightarrow>
       activeQueue (snd (addPlayer_effect now uid sock e prio s)) = activeQueue s)
   \<and> addPlayer now uid sock e prio s =
       (case fst (addPlayer_effect now uid sock e prio s) of
          Some err \<Rightarrow> Inl err
        | None \<Rightarrow> Inr (snd (addPlayer_effect now uid sock e prio s)))"
proof -
  have banned: "\<forall>penalty. getActivePenalty (penalties s) now uid = Some penalty \<longrightarrow>
       fst (addPlayer_effect now uid sock e prio s) = Some (Banned (expires_at penalty))"
    by (simp add: addPlayer_effect_def)
  have queued: "getActivePenalty (penalties s) now uid = None \<and>
        (uid \<in> fst ` set (activeQueue s) \<or> uid \<in> set (participants s)) \<longrightarrow>
       (\<exists>err. fst (addPlayer_effect now uid sock e prio s) = Some err \<and> AlreadyQueued err)"
    by (auto simp: addPlayer_effect_def AlreadyQueued_def isUserInPendingMatch_iff
        map_of_eq_None_iff)
  have busy: "getActivePenalty (penalties s) now uid = None \<and> uid \<notin> fst ` set (activeQueue s) \<and>
        uid \<notin> set (participants s) \<and> sock \<in> activeSockets s \<longrightarrow>
       fst (addPlayer_effect now uid sock e prio s) = Some SocketAlreadyActive"
    by (auto simp: addPlayer_effect_def isUserInPendingMatch_iff map_of_eq_None_iff)
  have fails: "getActivePenalty (penalties s) now uid \<noteq> None \<or> uid \<in> fst ` set (activeQueue s) \<or>
        uid \<in> set (participants s) \<or> sock \<in> activeSockets s \<longrightarrow>
       fst (addPlayer_effect now uid sock e prio s) \<noteq> None"
    by (auto simp: addPlayer_effect_def isUserInPendingMatch_iff map_of_eq_None_iff
        split: option.splits)
  have unchanged: "fst (addPlayer_effect now uid sock e prio s) \<noteq> None \<longrightarrow>
       snd (addPlayer_effect now uid sock e prio s) = s"
    by (cases "getActivePenalty (penalties s) now uid") (auto simp: addPlayer_effect_def Let_def)
  have never: "getActivePenalty (penalties s) now uid \<noteq> None \<longrightarrow>
       activeQueue (snd (addPlayer_effect now uid sock e prio s)) = activeQueue s"
    by (auto simp: addPlayer_effect_def)
  have result: "addPlayer now uid sock e prio s =
       (case fst (addPlayer_effect now uid sock e prio s) of
          Some err \<Rightarrow> Inl err
        | None \<Rightarrow> Inr (snd (addPlayer_effect now uid sock e prio s)))"
    by (cases "getActivePenalty (penalties s) now uid")
       (auto simp: addPlayer_effect_def addPlayer_def Let_def)
  show ?thesis
    by (rule conjI[OF banned conjI[OF queued conjI[OF busy conjI[OF fails conjI[OF unchanged
          conjI[OF never result]]]]]])
qed

theorem addPlayer_first_failing_check_witness:
  "addPlayer 3000 ''B'' ''sB'' 1520 False declinedState = Inl (Banned 302000)
   \<and> snd (addPlayer_effect 3000 ''B'' ''sB'' 1520 False declinedState) = declinedState
   \<and> fst (addPlayer_effect 3000 ''A'' ''sA2'' 1500 False declinedState) = Some UserAlreadyInQueue
   \<and> fst (addPlayer_effect 3000 ''C'' ''sA'' 1400 False declinedState) = Some SocketAlreadyActive
   \<and> snd (addPlayer_effect 3000 ''C'' ''sA'' 1400 False declinedState) = declinedState
   \<and> map fst (activeQueue declinedState) = [''A'']"
proof -
  have ban: "getActivePenalty (penalties declinedState) 3000 ''B'' =
      Some \<lparr> user_id = ''B'', reason = ''Matchmaking abuse: declined'', expires_at = 302000 \<rparr>"
    by code_simp
  have free: "getActivePenalty (penalties declinedState) 3000 ''C'' = None"
    "''C'' \<notin> fst ` set (activeQueue declinedState)" "''C'' \<notin> set (participants declinedState)"
    "''sA'' \<in> activeSockets declinedState"
    by code_simp+
  have waiting: "getActivePenalty (penalties declinedState) 3000 ''A'' = None"
    "''A'' \<in> fst ` set (activeQueue declinedState)"
    "map fst (activeQueue declinedState) = [''A'']"
    by code_simp+
  note forB = addPlayer_first_failing_check[of declinedState 3000 "''B''" "''sB''" 1520 False]
  note forA = addPlayer_first_failing_check[of declinedState 3000 "''A''" "''sA2''" 1500 False]
  note forC = addPlayer_first_failing_check[of declinedState 3000 "''C''" "''sA''" 1400 False]
  from forB ban have b1: "fst (addPlayer_effect 3000 ''B'' ''sB'' 1520 False declinedState) = Some (Banned 302000)"
    by simp
  with forB have b: "addPlayer 3000 ''B'' ''sB'' 1520 False declinedState = Inl (Banned 302000)"
    "snd (addPlayer_effect 3000 ''B'' ''sB'' 1520 False declinedState) = declinedState"
    by simp_all
  from forA waiting(1,2) obtain err where
    "fst (addPlayer_effect 3000 ''A'' ''sA2'' 1500 False declinedState) = Some err" "AlreadyQueued err"
    by blast
  moreover have "fst (addPlayer_effect 3000 ''A'' ''sA2'' 1500 False declinedState) \<noteq> Some UserAlreadyInPendingMatch"
    by code_simp
  ultimately have a: "fst (addPlayer_effect 3000 ''A'' ''sA2'' 1500 False declinedState) = Some UserAlreadyInQueue"
    by (auto simp: AlreadyQueued_def)
  from forC free have c1: "fst (addPlayer_effect 3000 ''C'' ''sA'' 1400 False declinedState) = Some SocketAlreadyActive"
    by blast
  with forC have c2: "snd (addPlayer_effect 3000 ''C'' ''sA'' 1400 False declinedState) = declinedState"
    by simp
  from b a c1 c2 waiting(3) show ?thesis by simp
qed

text \<open>
  Claim C6 as stated fails where two checks apply. With A waiting on the socket \<open>''sA''\<close>,
  a second \<^verbatim>\<open>addPlayer\<close> of A on that socket meets an active socket and yet fails with
  \<open>User already in queue\<close>, not with \<open>Socket already active\<close>. With a ban of A written
  to the penalty store while A waits, \<^verbatim>\<open>addPlayer\<close> of A meets a user in the waiting index
  and yet fails with \<open>Banned\<close>.
\<close>

theorem addPlayer_error_counterexample:
  "''sA'' \<in> activeSockets declinedState
   \<and> addPlayer 3000 ''A'' ''sA'' 1500 False declinedState = Inl UserAlreadyInQueue
   \<and> addPlayer 3000 ''A'' ''sA'' 1500 False declinedState \<noteq> Inl SocketAlreadyActive
   \<and> ''A'' \<in> fst ` set (activeQueue bannedWhileWaitingState)
   \<and> addPlayer 3000 ''A'' ''sA2'' 1500 False bannedWhileWaitingState = Inl (Banned 602500)
   \<and> \<not> AlreadyQueued (Banned 602500)"
proof -
  have 1: "''sA'' \<in> activeSockets declinedState" by code_simp
  have 2: "addPlayer 3000 ''A'' ''sA'' 1500 False declinedState = Inl UserAlreadyInQueue" by code_simp
  have 3: "''A'' \<in> fst ` set (activeQueue bannedWhileWaitingState)" by code_simp
  have 4: "addPlayer 3000 ''A'' ''sA2'' 1500 False bannedWhileWaitingState = Inl (Banned 602500)"
    by code_simp
  have 5: "\<not> AlreadyQueued (Banned 602500)" by (simp add: AlreadyQueued_def)
  from 1 2 3 4 5 show ?thesis by simp
qed

section \<open>removePlayer\<close>

lemma resolveSocket_find:
  "resolveSocket q x =
     (case List.find (\<lambda>(uid, p). socketId p = x) q of Some (uid, p) \<Rightarrow> uid | None \<Rightarrow> x)"
  by (induction q x rule: resolveSocket.induct) auto

lemma find_map_of:
  "distinct (map fst q) \<Longrightarrow> List.find P q = Some (u, p) \<Longrightarrow> map_of q u = Some p"
  by (metis find_Some_iff map_of_eq_Some_iff nth_mem)

lemma removePlayer_owner:
  assumes "distinct (map fst (activeQueue s))"
  shows "removePlayer x s =
     (case owner s x of
        None \<Rightarrow> s
      | Some (u, p) \<Rightarrow> emitQueueStats (s\<lparr> activeSockets := activeSockets s - {socketId p},
                                           activeQueue := AList.delete u (activeQueue s) \<rparr>))"
proof (cases "map_of (activeQueue s) x")
  case (Some p)
  then show ?thesis by (simp add: removePlayer_def owner_def)
next
  case None
  show ?thesis
  proof (cases "List.find (\<lambda>(uid, p). socketId p = x) (activeQueue s)")
    case N: None
    with None show ?thesis
      by (simp add: removePlayer_def owner_def resolveSocket_find)
  next
    case (Some up)
    obtain u p where up: "up = (u, p)" by (cases up)
    from Some up assms have "map_of (activeQueue s) u = Some p" by (simp add: find_map_of)
    with None Some up show ?thesis
      by (simp add: removePlayer_def owner_def resolveSocket_find)
  qed
qed

lemma same_socket_same_player:
  assumes "distinct (map (\<lambda>(k, p). socketId p) q)" "(u, p) \<in> set q" "(k, p') \<in> set q"
    "socketId p' = socketId p"
  shows "(k, p') = (u, p)"
proof -
  have inj: "inj_on (\<lambda>(k, p). socketId p) (set q)" using assms(1) by (simp add: distinct_map)
  from inj_onD[OF inj, of "(k, p')" "(u, p)"] assms show ?thesis by simp
qed

lemma find_socket_delete:
  assumes "distinct (map (\<lambda>(k, p). socketId p) q)" "(u, p) \<in> set q"
  shows "List.find (\<lambda>(k, p'). socketId p' = socketId p) (AList.delete u q) = None"
  using same_socket_same_player[OF assms] by (auto simp: find_None_iff AList.delete_eq)

lemma owner_by_userId:
  assumes "distinct (map fst (activeQueue s))" "(u, p) \<in> set (activeQueue s)"
  shows "owner s u = Some (u, p)"
  using assms by (simp add: owner_def)

lemma owner_by_socketId:
  assumes "queue_wf s" "(u, p) \<in> set (activeQueue s)" "socketId p \<notin> fst ` set (activeQueue s)"
  shows "owner s (socketId p) = Some (u, p)"
proof -
  have none: "map_of (activeQueue s) (socketId p) = None"
    using assms(3) by (simp add: map_of_eq_None_iff)
  have ds: "distinct (map (\<lambda>(k, p). socketId p) (activeQueue s))"
    using assms(1) by (simp add: queue_wf_def)
  obtain k p' where f: "List.find (\<lambda>(uid, q). socketId q = socketId p) (activeQueue s) = Some (k, p')"
    using assms(2) by (cases "List.find (\<lambda>(uid, q). socketId q = socketId p) (activeQueue s)")
      (auto simp: find_None_iff)
  then have "(k, p') \<in> set (activeQueue s)" "socketId p' = socketId p"
    by (auto simp: find_Some_iff dest: nth_mem)
  from same_socket_same_player[OF ds assms(2) this] f none show ?thesis
    by (simp add: owner_def)
qed

lemma owner_None:
  assumes "list_all (\<lambda>(u, p). x \<noteq> u \<and> x \<noteq> socketId p) (activeQueue s)"
  shows "owner s x = None"
proof -
  have "x \<notin> fst ` set (activeQueue s)" using assms by (auto simp: list_all_iff)
  then have "map_of (activeQueue s) x = None" by (simp add: map_of_eq_None_iff)
  moreover have "List.find (\<lambda>(uid, p). socketId p = x) (activeQueue s) = None"
    using assms by (auto simp: find_None_iff list_all_iff)
  ultimately show ?thesis by (simp add: owner_def)
qed

lemma owner_emitQueueStats: "owner (emitQueueStats s) x = owner s x"
  by (simp add: owner_def cong: option.case_cong)

lemma removePlayer_twice:
  assumes wf: "queue_wf s" and na: "\<not> ambiguous s x"
  shows "removePlayer x (removePlayer x s) = removePlayer x s"
proof (cases "owner s x")
  case None
  with wf show ?thesis by (simp add: removePlayer_owner queue_wf_def)
next
  case (Some up)
  obtain u p where up: "up = (u, p)" by (cases up)
  let ?s1 = "s\<lparr> activeSockets := activeSockets s - {socketId p},
                 activeQueue := AList.delete u (activeQueue s) \<rparr>"
  have d: "distinct (map fst (activeQueue s))" using wf by (simp add: queue_wf_def)
  have r1: "removePlayer x s = emitQueueStats ?s1"
    using Some up d by (simp add: removePlayer_owner)
  have "owner ?s1 x = None"
  proof (cases "map_of (activeQueue s) x")
    case (Some p')
    with \<open>owner s x = Some up\<close> up have ux: "u = x" by (simp add: owner_def)
    from na Some have "\<not> list_ex (\<lambda>(k, p). k \<noteq> x \<and> socketId p = x) (activeQueue s)"
      by (simp add: ambiguous_def)
    then have "List.find (\<lambda>(uid, p). socketId p = x) (AList.delete x (activeQueue s)) = None"
      by (auto simp: find_None_iff AList.delete_eq list_ex_iff)
    then show ?thesis using ux by (simp add: owner_def AList.delete_conv')
  next
    case None
    with \<open>owner s x = Some up\<close> up
    have f: "List.find (\<lambda>(uid, p). socketId p = x) (activeQueue s) = Some (u, p)"
      by (simp add: owner_def)
    then have mem: "(u, p) \<in> set (activeQueue s)" and sx: "socketId p = x"
      by (auto simp: find_Some_iff dest: nth_mem)
    have "distinct (map (\<lambda>(k, p). socketId p) (activeQueue s))" using wf by (simp add: queue_wf_def)
    from find_socket_delete[OF this mem] sx
    have "List.find (\<lambda>(k, p'). socketId p' = x) (AList.delete u (activeQueue s)) = None" by simp
    moreover have "map_of (AList.delete u (activeQueue s)) x = None"
      using None by (simp add: AList.delete_conv')
    ultimately show ?thesis by (simp add: owner_def)
  qed
  then have "owner (emitQueueStats ?s1) x = None" by (simp add: owner_emitQueueStats)
  moreover have "distinct (map fst (activeQueue (emitQueueStats ?s1)))"
    using d by (simp add: AList.distinct_delete)
  ultimately have "removePlayer x (emitQueueStats ?s1) = emitQueueStats ?s1"
    by (simp add: removePlayer_owner)
  with r1 show ?thesis by simp
qed

lemma getActivePenalty_later:
  "getActivePenalty rows now uid = None \<Longrightarrow> now \<le> now' \<Longrightarrow> getActivePenalty rows now' uid = None"
  by (auto simp: getActivePenalty_def find_None_iff)

lemma add_remove_add:
  assumes "addPlayer now uid sock e prio s = Inr s1" "now \<le> now'"
  shows "\<exists>s3. addPlayer now' uid sock e' prio' (removePlayer uid s1) = Inr s3"
proof -
  from assms(1) have a: "getActivePenalty (penalties s) now uid = None" "map_of (activeQueue s) uid = None"
     "uid \<notin> set (participants s)" "sock \<notin> activeSockets s"
     and s1: "s1 = emitQueueStats
            (s\<lparr> activeQueue := AList.update uid (createQueuedPlayer now uid sock e prio) (activeQueue s),
                 activeSockets := insert sock (activeSockets s) \<rparr>)"
    by (simp_all add: addPlayer_Inr_iff)
  have q: "map_of (activeQueue s1) uid = Some (createQueuedPlayer now uid sock e prio)"
    by (simp add: s1 AList.update_conv')
  have r: "removePlayer uid s1 = emitQueueStats (s1\<lparr> activeSockets := activeSockets s1 - {sock},
              activeQueue := AList.delete uid (activeQueue s1) \<rparr>)"
    using q by (simp add: removePlayer_def createQueuedPlayer_def)
  have pen: "penalties s1 = penalties s" and par: "participants s1 = participants s"
    by (simp_all add: s1 participants_def)
  have "getActivePenalty (penalties (removePlayer uid s1)) now' uid = None"
    using a(1) assms(2) by (simp add: r pen getActivePenalty_later)
  moreover have "map_of (activeQueue (removePlayer uid s1)) uid = None"
    by (simp add: r AList.delete_conv')
  moreover have "uid \<notin> set (participants (removePlayer uid s1))"
    using a(3) par by (simp add: r participants_def)
  moreover have "sock \<notin> activeSockets (removePlayer uid s1)"
    by (simp add: r)
  ultimately show ?thesis by (simp add: addPlayer_Inr_iff)
qed

lemma removePlayer_effect:
  assumes wf: "queue_wf s" and o: "owner s x = Some (u, p)"
  shows "activeQueue (removePlayer x s) = AList.delete u (activeQueue s)"
    "activeSockets (removePlayer x s) = activeSockets s - {socketId p}"
    "u \<notin> fst ` set (activeQueue (removePlayer x s))"
    "socketId p \<notin> activeSockets (removePlayer x s)"
  using wf o by (simp_all add: removePlayer_owner queue_wf_def AList.delete_notin_dom)

section \<open>Finalization\<close>

lemma clearTimeout_fields [simp]:
  "server (clearTimeout tid s) = server s"
  "activeQueue (clearTimeout tid s) = activeQueue s"
  "activeSockets (clearTimeout tid s) = activeSockets s"
  "pendingMatches (clearTimeout tid s) = pendingMatches s"
  "nextTimeoutId (clearTimeout tid s) = nextTimeoutId s"
  "uuidCount (clearTimeout tid s) = uuidCount s"
  "penalties (clearTimeout tid s) = penalties s"
  "penaltyCalls (clearTimeout tid s) = penaltyCalls s"
  "sessionLogs (clearTimeout tid s) = sessionLogs s"
  "gameCalls (clearTimeout tid s) = gameCalls s"
  "awaiting (clearTimeout tid s) = awaiting s"
  "emitted (clearTimeout tid s) = emitted s"
  "errorLog (clearTimeout tid s) = errorLog s"
  by (simp_all add: clearTimeout_def split: option.splits)

lemma timers_clearTimeout:
  "map_of (timers (clearTimeout (Some t) s)) t = None"
  by (auto simp: clearTimeout_def map_of_eq_None_iff)

lemma finalizeMatch_begin_fields [simp]:
  "server (finalizeMatch_begin e now m s) = server s"
  "activeQueue (finalizeMatch_begin e now m s) = activeQueue s"
  "activeSockets (finalizeMatch_begin e now m s) = activeSockets s"
  "pendingMatches (finalizeMatch_begin e now m s) = AList.delete (matchId m) (pendingMatches s)"
  "timers (finalizeMatch_begin e now m s) = timers (clearTimeout (timeoutId m) s)"
  "nextTimeoutId (finalizeMatch_begin e now m s) = nextTimeoutId s"
  "uuidCount (finalizeMatch_begin e now m s) = uuidCount s"
  "penalties (finalizeMatch_begin e now m s) = penalties s"
  "penaltyCalls (finalizeMatch_begin e now m s) = penaltyCalls s"
  "gameCalls (finalizeMatch_begin e now m s) = gameCalls s @
     [\<lparr> gameId = matchId m, player1Id = userId (player1 m), player2Id = userId (player2 m) \<rparr>]"
  "awaiting (finalizeMatch_begin e now m s) = awaiting s @ [m]"
  "emitted (finalizeMatch_begin e now m s) = emitted s"
  by (simp_all add: finalizeMatch_begin_def Let_def)

lemma map_of_pending_wf:
  "pending_wf s \<Longrightarrow> map_of (pendingMatches s) mid = Some m \<Longrightarrow> match_wf (mid, m)"
  by (auto simp: pending_wf_def list_all_iff dest!: map_of_SomeD)

text \<open>The accept that completes the handshake: the caller is a participant still
  \<open>PENDING\<close> and the other participant has \<open>ACCEPTED\<close>.\<close>

lemma acceptMatch_completing:
  assumes m: "map_of (pendingMatches s) mid = Some m" and wf: "matchId m = mid"
    and c: "userId (player1 m) = uid \<and> status (player1 m) = PENDING \<and> status (player2 m) = ACCEPTED \<or>
            userId (player1 m) \<noteq> uid \<and> userId (player2 m) = uid \<and> status (player2 m) = PENDING \<and>
              status (player1 m) = ACCEPTED"
  shows "\<exists>m'. acceptMatch e now uid mid s =
            Inr (finalizeMatch_begin e now m' (s\<lparr> pendingMatches := AList.update mid m' (pendingMatches s) \<rparr>))
          \<and> matchId m' = mid \<and> timeoutId m' = timeoutId m
          \<and> userId (player1 m') = userId (player1 m) \<and> userId (player2 m') = userId (player2 m)
          \<and> socketId (player1 m') = socketId (player1 m) \<and> socketId (player2 m') = socketId (player2 m)
          \<and> elo (player1 m') = elo (player1 m) \<and> elo (player2 m') = elo (player2 m)"
  using c
proof
  assume a: "userId (player1 m) = uid \<and> status (player1 m) = PENDING \<and> status (player2 m) = ACCEPTED"
  show ?thesis
    by (rule exI[of _ "m\<lparr> player1 := (player1 m)\<lparr> status := ACCEPTED \<rparr> \<rparr>"])
       (use a m wf in \<open>simp add: acceptMatch_def acceptAs_def Let_def\<close>)
next
  assume a: "userId (player1 m) \<noteq> uid \<and> userId (player2 m) = uid \<and> status (player2 m) = PENDING \<and>
              status (player1 m) = ACCEPTED"
  show ?thesis
    by (rule exI[of _ "m\<lparr> player2 := (player2 m)\<lparr> status := ACCEPTED \<rparr> \<rparr>"])
       (use a m wf in \<open>simp add: acceptMatch_def acceptAs_def Let_def\<close>)
qed

lemma declineMatch_unknown:
  "map_of (pendingMatches s) mid = None \<Longrightarrow> declineMatch e now uid mid s = Inl MatchNotFound"
  by (simp add: declineMatch_def)

lemma acceptMatch_unknown:
  "map_of (pendingMatches s) mid = None \<Longrightarrow> acceptMatch e now uid mid s = Inl MatchNotFound"
  by (simp add: acceptMatch_def)

text \<open>
  Claim C4. When an accept completes the handshake (the caller is still \<open>PENDING\<close>, the
  other participant has \<open>ACCEPTED\<close>), the state in which \<^verbatim>\<open>createGame\<close> has just been called
  and \<^verbatim>\<open>finalizeMatch\<close> is suspended has the expiration timer cancelled and the match
  removed from the index. From then on every \<^verbatim>\<open>declineMatch\<close> and \<^verbatim>\<open>acceptMatch\<close> on that
  match fails with \<open>MatchNotFound\<close>, so a decline leaves the state as it is: no penalty
  is recorded for anybody.
\<close>

theorem finalize_removes_match_before_createGame:
  assumes "pending_wf s" and "map_of (pendingMatches s) mid = Some m"
    and "userId (player1 m) = uid \<and> status (player1 m) = PENDING \<and> status (player2 m) = ACCEPTED \<or>
         userId (player1 m) \<noteq> uid \<and> userId (player2 m) = uid \<and> status (player2 m) = PENDING \<and>
           status (player1 m) = ACCEPTED"
  shows "\<exists>s'. acceptMatch e now uid mid s = Inr s'
      \<and> gameCalls s' = gameCalls s @
           [\<lparr> gameId = mid, player1Id = userId (player1 m), player2Id = userId (player2 m) \<rparr>]
      \<and> map_of (pendingMatches s') mid = None
      \<and> (\<forall>t. timeoutId m = Some t \<longrightarrow> map_of (timers s') t = None)
      \<and> (\<forall>now' u. declineMatch e now' u mid s' = Inl MatchNotFound
             \<and> after (declineMatch e now' u mid s') s' = s'
             \<and> acceptMatch e now' u mid s' = Inl MatchNotFound)"
proof -
  from map_of_pending_wf[OF assms(1,2)] have wf: "matchId m = mid" by (simp add: match_wf_def)
  from acceptMatch_completing[OF assms(2) wf assms(3), of e now]
  obtain m' where acc: "acceptMatch e now uid mid s =
        Inr (finalizeMatch_begin e now m' (s\<lparr> pendingMatches := AList.update mid m' (pendingMatches s) \<rparr>))"
    and m': "matchId m' = mid" "timeoutId m' = timeoutId m"
      "userId (player1 m') = userId (player1 m)" "userId (player2 m') = userId (player2 m)"
    by blast
  let ?s' = "finalizeMatch_begin e now m' (s\<lparr> pendingMatches := AList.update mid m' (pendingMatches s) \<rparr>)"
  have gone: "map_of (pendingMatches ?s') mid = None"
    by (simp add: m' AList.delete_conv')
  have calls: "gameCalls ?s' = gameCalls s @
           [\<lparr> gameId = mid, player1Id = userId (player1 m), player2Id = userId (player2 m) \<rparr>]"
    by (simp add: m')
  have timer: "\<forall>t. timeoutId m = Some t \<longrightarrow> map_of (timers ?s') t = None"
    by (auto simp: m' clearTimeout_def map_of_eq_None_iff)
  have later: "\<forall>now' u. declineMatch e now' u mid ?s' = Inl MatchNotFound
             \<and> after (declineMatch e now' u mid ?s') ?s' = ?s'
             \<and> acceptMatch e now' u mid ?s' = Inl MatchNotFound"
    using gone by (simp add: declineMatch_unknown acceptMatch_unknown after_simps)
  show ?thesis
    by (rule exI[of _ ?s']) (rule conjI[OF acc conjI[OF calls conjI[OF gone conjI[OF timer later]]]])
qed

theorem finalize_removes_match_before_createGame_witness:
  "declineMatch exampleEnv 3000 ''A'' ''m'' bothAcceptedState = Inl MatchNotFound
   \<and> map_of (pendingMatches bothAcceptedState) ''m'' = None
   \<and> map_of (timers bothAcceptedState) 0 = None
   \<and> gameCalls bothAcceptedState = [\<lparr> gameId = ''m'', player1Id = ''A'', player2Id = ''B'' \<rparr>]
   \<and> penaltyCalls (after (declineMatch exampleEnv 3000 ''A'' ''m'' bothAcceptedState) bothAcceptedState) = []"
proof -
  have wf: "pending_wf acceptedOnceState" by code_simp
  have pm: "map_of (pendingMatches acceptedOnceState) ''m'' =
      Some \<lparr> matchId = ''m'', expiresAt = 16000,
             player1 = \<lparr> userId = ''A'', socketId = ''sA'', elo = 1500, status = ACCEPTED \<rparr>,
             player2 = \<lparr> userId = ''B'', socketId = ''sB'', elo = 1520, status = PENDING \<rparr>,
             timeoutId = Some 0 \<rparr>"
    by code_simp
  have pc: "penaltyCalls bothAcceptedState = []" by code_simp
  from finalize_removes_match_before_createGame[OF wf pm, of "''B''" exampleEnv 2500]
  obtain s' where acc: "acceptMatch exampleEnv 2500 ''B'' ''m'' acceptedOnceState = Inr s'"
    and calls: "gameCalls s' = gameCalls acceptedOnceState @
           [\<lparr> gameId = ''m'', player1Id = ''A'', player2Id = ''B'' \<rparr>]"
    and gone: "map_of (pendingMatches s') ''m'' = None"
    and timer: "map_of (timers s') 0 = None"
    and all: "\<forall>now' u. declineMatch exampleEnv now' u ''m'' s' = Inl MatchNotFound
             \<and> after (declineMatch exampleEnv now' u ''m'' s') s' = s'
             \<and> acceptMatch exampleEnv now' u ''m'' s' = Inl MatchNotFound"
    by auto
  from all have later: "declineMatch exampleEnv 3000 ''A'' ''m'' s' = Inl MatchNotFound"
      "after (declineMatch exampleEnv 3000 ''A'' ''m'' s') s' = s'"
    by blast+
  have s': "bothAcceptedState = s'"
    by (simp add: bothAcceptedState_def acc after_simps)
  have g0: "gameCalls acceptedOnceState = []" by code_simp
  from calls gone timer later pc g0 show ?thesis by (simp add: s')
qed

section \<open>Sequences of accepts\<close>

lemma acceptedBoth_simps [simp]:
  "matchId (acceptedBoth m) = matchId m"
  "timeoutId (acceptedBoth m) = timeoutId m"
  "userId (player1 (acceptedBoth m)) = userId (player1 m)"
  "userId (player2 (acceptedBoth m)) = userId (player2 m)"
  "socketId (player1 (acceptedBoth m)) = socketId (player1 m)"
  "socketId (player2 (acceptedBoth m)) = socketId (player2 m)"
  "elo (player1 (acceptedBoth m)) = elo (player1 m)"
  "elo (player2 (acceptedBoth m)) = elo (player2 m)"
  "acceptedBoth (m\<lparr> player1 := (player1 m)\<lparr> status := ACCEPTED \<rparr> \<rparr>) = acceptedBoth m"
  "acceptedBoth (m\<lparr> player2 := (player2 m)\<lparr> status := ACCEPTED \<rparr> \<rparr>) = acceptedBoth m"
  by (simp_all add: acceptedBoth_def)

lemma acceptedBoth_id:
  "status (player1 m) = ACCEPTED \<Longrightarrow>
     m\<lparr> player2 := (player2 m)\<lparr> status := ACCEPTED \<rparr> \<rparr> = acceptedBoth m"
  "status (player2 m) = ACCEPTED \<Longrightarrow>
     m\<lparr> player1 := (player1 m)\<lparr> status := ACCEPTED \<rparr> \<rparr> = acceptedBoth m"
  by (simp_all add: acceptedBoth_def)

text \<open>What one accept call does to an open match.\<close>

lemma accept_not_participant:
  assumes "open_match s mid m" "uid \<noteq> userId (player1 m)" "uid \<noteq> userId (player2 m)"
  shows "acceptMatch e now uid mid s = Inl NotParticipant"
  using assms by (auto simp: open_match_def acceptMatch_def)

lemma accept_repeated:
  assumes "open_match s mid m"
    and "uid = userId (player1 m) \<and> status (player1 m) \<noteq> PENDING \<or>
         uid = userId (player2 m) \<and> status (player2 m) \<noteq> PENDING"
  shows "acceptMatch e now uid mid s = Inr s"
  using assms by (auto simp: open_match_def acceptMatch_def acceptAs_def)

lemma accept_first:
  assumes "open_match s mid m" "status (player1 m) = PENDING" "status (player2 m) = PENDING"
    and "uid = userId (player1 m) \<or> uid = userId (player2 m)"
  shows "\<exists>s1 m1. acceptMatch e now uid mid s = Inr s1 \<and> open_match s1 mid m1
      \<and> acceptedBoth m1 = acceptedBoth m
      \<and> userId (player1 m1) = userId (player1 m) \<and> userId (player2 m1) = userId (player2 m)
      \<and> (if uid = userId (player1 m) then status (player1 m1) = ACCEPTED \<and> status (player2 m1) = PENDING
          else status (player1 m1) = PENDING \<and> status (player2 m1) = ACCEPTED)
      \<and> gameCalls s1 = gameCalls s \<and> awaiting s1 = awaiting s \<and> emitted s1 = emitted s
      \<and> server s1 = server s"
proof (cases "uid = userId (player1 m)")
  case True
  let ?m1 = "m\<lparr> player1 := (player1 m)\<lparr> status := ACCEPTED \<rparr> \<rparr>"
  let ?s1 = "s\<lparr> pendingMatches := AList.update mid ?m1 (pendingMatches s) \<rparr>"
  have "acceptMatch e now uid mid s = Inr ?s1"
    using assms True by (simp add: open_match_def acceptMatch_def acceptAs_def Let_def)
  moreover have "open_match ?s1 mid ?m1"
    using assms by (simp add: open_match_def AList.update_conv')
  ultimately show ?thesis using True assms(3)
    by (intro exI[of _ ?s1] exI[of _ ?m1]) simp
next
  case False
  with assms(4) have u: "uid = userId (player2 m)" by simp
  let ?m1 = "m\<lparr> player2 := (player2 m)\<lparr> status := ACCEPTED \<rparr> \<rparr>"
  let ?s1 = "s\<lparr> pendingMatches := AList.update mid ?m1 (pendingMatches s) \<rparr>"
  have "acceptMatch e now uid mid s = Inr ?s1"
    using assms False u by (simp add: open_match_def acceptMatch_def acceptAs_def Let_def)
  moreover have "open_match ?s1 mid ?m1"
    using assms by (simp add: open_match_def AList.update_conv')
  ultimately show ?thesis using False assms(2)
    by (intro exI[of _ ?s1] exI[of _ ?m1]) simp
qed

lemma accept_second:
  assumes "open_match s mid m"
    and "uid = userId (player1 m) \<and> status (player1 m) = PENDING \<and> status (player2 m) = ACCEPTED \<or>
         uid = userId (player2 m) \<and> status (player2 m) = PENDING \<and> status (player1 m) = ACCEPTED"
  shows "\<exists>s1. acceptMatch e now uid mid s = Inr s1 \<and> map_of (pendingMatches s1) mid = None
      \<and> gameCalls s1 = gameCalls s @
           [\<lparr> gameId = mid, player1Id = userId (player1 m), player2Id = userId (player2 m) \<rparr>]
      \<and> awaiting s1 = awaiting s @ [acceptedBoth m] \<and> emitted s1 = emitted s
      \<and> server s1 = server s"
  using assms(2)
proof
  assume a: "uid = userId (player1 m) \<and> status (player1 m) = PENDING \<and> status (player2 m) = ACCEPTED"
  let ?m1 = "m\<lparr> player1 := (player1 m)\<lparr> status := ACCEPTED \<rparr> \<rparr>"
  let ?s1 = "finalizeMatch_begin e now ?m1 (s\<lparr> pendingMatches := AList.update mid ?m1 (pendingMatches s) \<rparr>)"
  have "acceptMatch e now uid mid s = Inr ?s1"
    using assms(1) a by (simp add: open_match_def acceptMatch_def acceptAs_def Let_def)
  moreover have "matchId m = mid" using assms(1) by (simp add: open_match_def)
  ultimately show ?thesis using a
    by (intro exI[of _ ?s1]) (simp add: AList.delete_conv' acceptedBoth_id)
next
  assume a: "uid = userId (player2 m) \<and> status (player2 m) = PENDING \<and> status (player1 m) = ACCEPTED"
  let ?m1 = "m\<lparr> player2 := (player2 m)\<lparr> status := ACCEPTED \<rparr> \<rparr>"
  let ?s1 = "finalizeMatch_begin e now ?m1 (s\<lparr> pendingMatches := AList.update mid ?m1 (pendingMatches s) \<rparr>)"
  have "acceptMatch e now uid mid s = Inr ?s1"
    using assms(1) a by (auto simp: open_match_def acceptMatch_def acceptAs_def Let_def)
  moreover have "matchId m = mid" using assms(1) by (simp add: open_match_def)
  ultimately show ?thesis using a
    by (intro exI[of _ ?s1]) (simp add: AList.delete_conv' acceptedBoth_id)
qed

text \<open>Once the match has left the index, accepts change nothing.\<close>

lemma accepts_unknown:
  "map_of (pendingMatches s) mid = None \<Longrightarrow> run e (accepts mid calls) s = s"
  by (induction calls) (auto simp: accepts_def acceptMatch_def after_simps)

lemma run_accepts_Cons:
  "run e (accepts mid ((t, u) # calls)) s =
     run e (accepts mid calls) (after (acceptMatch e t u mid s) s)"
  by (simp add: accepts_def)

lemma bothAccept_Nil: "open_match s mid m \<Longrightarrow> \<not> bothAccept m []"
  by (auto simp: open_match_def bothAccept_def)

lemma accepts_run:
  assumes "open_match s mid m"
  shows "gameCalls (run e (accepts mid calls) s) = gameCalls s @
           (if bothAccept m calls
            then [\<lparr> gameId = mid, player1Id = userId (player1 m), player2Id = userId (player2 m) \<rparr>]
            else [])
       \<and> awaiting (run e (accepts mid calls) s) = awaiting s @
           (if bothAccept m calls then [acceptedBoth m] else [])
       \<and> emitted (run e (accepts mid calls) s) = emitted s
       \<and> server (run e (accepts mid calls) s) = server s
       \<and> (bothAccept m calls \<longrightarrow> map_of (pendingMatches (run e (accepts mid calls) s)) mid = None)"
  using assms
proof (induction calls arbitrary: s m)
  case Nil
  then show ?case by (simp add: accepts_def bothAccept_Nil)
next
  case (Cons call calls)
  obtain t u where call: "call = (t, u)" by (cases call)
  note om = Cons.prems
  have ne: "userId (player1 m) \<noteq> userId (player2 m)" using om by (simp add: open_match_def)
  have st: "status (player1 m) \<noteq> DECLINED" "status (player2 m) \<noteq> DECLINED"
    "status (player1 m) = PENDING \<or> status (player2 m) = PENDING"
    using om by (simp_all add: open_match_def)
  consider
      (stranger) "u \<noteq> userId (player1 m)" "u \<noteq> userId (player2 m)"
    | (repeated) "u = userId (player1 m) \<and> status (player1 m) \<noteq> PENDING \<or>
         u = userId (player2 m) \<and> status (player2 m) \<noteq> PENDING"
    | (first) "status (player1 m) = PENDING" "status (player2 m) = PENDING"
         "u = userId (player1 m) \<or> u = userId (player2 m)"
    | (second) "u = userId (player1 m) \<and> status (player1 m) = PENDING \<and> status (player2 m) = ACCEPTED \<or>
         u = userId (player2 m) \<and> status (player2 m) = PENDING \<and> status (player1 m) = ACCEPTED"
    using st by (cases "status (player1 m)"; cases "status (player2 m)") auto
  then show ?case
  proof cases
    case stranger
    have "after (acceptMatch e t u mid s) s = s"
      using accept_not_participant[OF om stranger] by (simp add: after_simps)
    moreover have "bothAccept m (call # calls) = bothAccept m calls"
      using stranger by (auto simp: bothAccept_def call)
    ultimately show ?thesis using Cons.IH[OF om] by (simp add: call run_accepts_Cons)
  next
    case repeated
    have "after (acceptMatch e t u mid s) s = s"
      using accept_repeated[OF om repeated] by (simp add: after_simps)
    moreover have "bothAccept m (call # calls) = bothAccept m calls"
      using repeated st ne by (cases "status (player1 m)"; cases "status (player2 m)")
        (auto simp: bothAccept_def call)
    ultimately show ?thesis using Cons.IH[OF om] by (simp add: call run_accepts_Cons)
  next
    case first
    from accept_first[OF om first, of e t]
    obtain s1 m1 where s1: "acceptMatch e t u mid s = Inr s1" and om1: "open_match s1 mid m1"
      and ab: "acceptedBoth m1 = acceptedBoth m"
      and ids: "userId (player1 m1) = userId (player1 m)" "userId (player2 m1) = userId (player2 m)"
      and sts: "if u = userId (player1 m) then status (player1 m1) = ACCEPTED \<and> status (player2 m1) = PENDING
          else status (player1 m1) = PENDING \<and> status (player2 m1) = ACCEPTED"
      and fr: "gameCalls s1 = gameCalls s" "awaiting s1 = awaiting s" "emitted s1 = emitted s"
        "server s1 = server s"
      by blast
    have "bothAccept m (call # calls) = bothAccept m1 calls"
      using first ne ids sts by (auto simp: bothAccept_def call split: if_splits)
    then show ?thesis using Cons.IH[OF om1] s1 ab ids fr
      by (simp add: call run_accepts_Cons after_simps)
  next
    case second
    from accept_second[OF om second, of e t]
    obtain s1 where s1: "acceptMatch e t u mid s = Inr s1"
      and gone: "map_of (pendingMatches s1) mid = None"
      and fr: "gameCalls s1 = gameCalls s @
           [\<lparr> gameId = mid, player1Id = userId (player1 m), player2Id = userId (player2 m) \<rparr>]"
        "awaiting s1 = awaiting s @ [acceptedBoth m]" "emitted s1 = emitted s"
        "server s1 = server s"
      by blast
    have "bothAccept m (call # calls)"
      using second by (auto simp: bothAccept_def call)
    then show ?thesis using s1 gone fr
      by (simp add: call run_accepts_Cons after_simps accepts_unknown)
  qed
qed

section \<open>The answer of the Game service\<close>

lemma takeAwaiting_last:
  "list_all (\<lambda>m'. matchId m' \<noteq> mid) xs \<Longrightarrow> matchId m = mid \<Longrightarrow>
     takeAwaiting mid (xs @ [m]) = Some (m, xs)"
  by (induction xs) auto

lemma confirmations_emit [simp]:
  "confirmations (emitQueueStats s) = confirmations s"
  "confirmations (emitTo sock (match_confirmed gid p1 p2) s) =
     confirmations s @ (if server s then [(To sock, match_confirmed gid p1 p2)] else [])"
  "confirmations (emitTo sock (match_failed mid why code msg) s) = confirmations s"
  "confirmations (emitTo sock (match_cancelled why mid) s) = confirmations s"
  "confirmations (emitTo sock (queue_joined uid el t prio) s) = confirmations s"
  "confirmations (emitTo sock (match_proposal mid ex el) s) = confirmations s"
  by (simp_all add: confirmations_def emitQueueStats_def emitTo_def)

lemma confirmations_frame: "emitted s' = emitted s \<Longrightarrow> confirmations s' = confirmations s"
  by (simp add: confirmations_def)

lemma addPlayer_frame:
  assumes "addPlayer now uid sock el prio s = Inr s'"
  shows "pendingMatches s' = pendingMatches s" "gameCalls s' = gameCalls s"
    "awaiting s' = awaiting s" "confirmations s' = confirmations s" "server s' = server s"
    "timers s' = timers s" "penalties s' = penalties s" "penaltyCalls s' = penaltyCalls s"
    "errorLog s' = errorLog s"
  using assms by (auto simp: addPlayer_Inr_iff confirmations_def emitQueueStats_def)

lemma requeueAfterFailure_cases:
  "(\<exists>err. addPlayer now (userId p) (socketId p) (elo p) True s = Inl err \<and>
       requeueAfterFailure now p s =
         emitTo (socketId p) (queue_joined (userId p) (elo p) now True)
           (s\<lparr> errorLog := errorLog s @ [FailedRequeue (userId p) err] \<rparr>)) \<or>
   (\<exists>s'. addPlayer now (userId p) (socketId p) (elo p) True s = Inr s' \<and>
       requeueAfterFailure now p s =
         emitTo (socketId p) (queue_joined (userId p) (elo p) now True) s')"
  by (cases "addPlayer now (userId p) (socketId p) (elo p) True s")
     (simp_all add: requeueAfterFailure_def Let_def)

lemma confirmations_errorLog [simp]:
  "confirmations (s\<lparr> errorLog := x \<rparr>) = confirmations s"
  by (simp add: confirmations_def)

lemma requeueAfterFailure_frame [simp]:
  "pendingMatches (requeueAfterFailure now p s) = pendingMatches s"
  "gameCalls (requeueAfterFailure now p s) = gameCalls s"
  "awaiting (requeueAfterFailure now p s) = awaiting s"
  "confirmations (requeueAfterFailure now p s) = confirmations s"
  "server (requeueAfterFailure now p s) = server s"
  using requeueAfterFailure_cases[of now p s] by (auto dest: addPlayer_frame)

lemma handleGameCreationFailure_frame [simp]:
  "pendingMatches (handleGameCreationFailure now m err msg s) = pendingMatches s"
  "gameCalls (handleGameCreationFailure now m err msg s) = gameCalls s"
  "awaiting (handleGameCreationFailure now m err msg s) = awaiting s"
  "confirmations (handleGameCreationFailure now m err msg s) = confirmations s"
  by (simp_all add: handleGameCreationFailure_def Let_def)

lemma handleGameCreationSuccess_frame [simp]:
  "pendingMatches (handleGameCreationSuccess m gid s) = pendingMatches s"
  "gameCalls (handleGameCreationSuccess m gid s) = gameCalls s"
  "awaiting (handleGameCreationSuccess m gid s) = awaiting s"
  "confirmations (handleGameCreationSuccess m gid s) = confirmations s @
     (if server s
      then [(To (socketId (player1 m)), match_confirmed gid (userId (player1 m)) (userId (player2 m))),
            (To (socketId (player2 m)), match_confirmed gid (userId (player1 m)) (userId (player2 m)))]
      else [])"
  by (simp_all add: handleGameCreationSuccess_def Let_def)

lemma finalizeMatch_resume_frame [simp]:
  "pendingMatches (finalizeMatch_resume now m reply s) = pendingMatches s"
  "gameCalls (finalizeMatch_resume now m reply s) = gameCalls s"
  "awaiting (finalizeMatch_resume now m reply s) = awaiting s"
  by (simp_all add: finalizeMatch_resume_def split: CreateGameResponse.splits)

lemma finalizeMatch_resume_confirmations:
  "confirmations (finalizeMatch_resume now m reply s) = confirmations s @
     (case reply of
        GameCreated gid \<Rightarrow>
          if server s
          then [(To (socketId (player1 m)), match_confirmed gid (userId (player1 m)) (userId (player2 m))),
                (To (socketId (player2 m)), match_confirmed gid (userId (player1 m)) (userId (player2 m)))]
          else []
      | GameFailed err msg \<Rightarrow> [])"
  by (simp add: finalizeMatch_resume_def split: CreateGameResponse.splits)

lemma confirmations_awaiting [simp]:
  "confirmations (s\<lparr> awaiting := x \<rparr>) = confirmations s"
  by (simp add: confirmations_def)

text \<open>
  Claim C3, as amended. For a pending match whose handshake is open, an accept by a
  participant whose status is not \<open>PENDING\<close> leaves the state as it is, and any sequence
  of accept calls on the match, by whomever and with whatever repetitions, makes at most
  one \<^verbatim>\<open>createGame\<close> call: exactly one if both participants have accepted by the end of
  the sequence, none otherwise. The accepts themselves emit no \<^verbatim>\<open>match_confirmed\<close>. When the
  Game service answers that one call, each participant's socket is sent exactly one
  \<^verbatim>\<open>match_confirmed\<close> if the answer is a success and a socket server is attached, and none
  if the answer is a failure; accepts arriving after the answer change nothing.
\<close>

theorem accept_sequence_finalizes_at_most_once:
  assumes om: "open_match s mid m"
    and fresh: "list_all (\<lambda>m'. matchId m' \<noteq> mid) (awaiting s)"
  shows "(\<forall>now uid. uid = userId (player1 m) \<and> status (player1 m) \<noteq> PENDING \<or>
                   uid = userId (player2 m) \<and> status (player2 m) \<noteq> PENDING \<longrightarrow>
            acceptMatch e now uid mid s = Inr s)
     \<and> gameCalls (run e (accepts mid calls) s) = gameCalls s @
          (if bothAccept m calls
           then [\<lparr> gameId = mid, player1Id = userId (player1 m), player2Id = userId (player2 m) \<rparr>]
           else [])
     \<and> confirmations (run e (accepts mid calls) s) = confirmations s
     \<and> (bothAccept m calls \<longrightarrow>
          (\<forall>t reply more.
             gameCalls (run e (accepts mid more)
                (step e t (GameReply mid reply) (run e (accepts mid calls) s))) =
               gameCalls s @
                 [\<lparr> gameId = mid, player1Id = userId (player1 m), player2Id = userId (player2 m) \<rparr>]
           \<and> confirmations (run e (accepts mid more)
                (step e t (GameReply mid reply) (run e (accepts mid calls) s))) =
               confirmations s @
                 (case reply of
                    GameCreated gid \<Rightarrow>
                      if server s
                      then [(To (socketId (player1 m)),
                               match_confirmed gid (userId (player1 m)) (userId (player2 m))),
                            (To (socketId (player2 m)),
                               match_confirmed gid (userId (player1 m)) (userId (player2 m)))]
                      else []
                  | GameFailed err msg \<Rightarrow> [])))"
proof -
  let ?s' = "run e (accepts mid calls) s"
  let ?c = "\<lparr> gameId = mid, player1Id = userId (player1 m), player2Id = userId (player2 m) \<rparr>"
  note r = accepts_run[OF om, of e calls]
  have 1: "\<forall>now uid. uid = userId (player1 m) \<and> status (player1 m) \<noteq> PENDING \<or>
                   uid = userId (player2 m) \<and> status (player2 m) \<noteq> PENDING \<longrightarrow>
            acceptMatch e now uid mid s = Inr s"
    using accept_repeated[OF om] by blast
  have 2: "gameCalls ?s' = gameCalls s @ (if bothAccept m calls then [?c] else [])"
    using r by blast
  have 3: "confirmations ?s' = confirmations s"
    using r by (simp add: confirmations_def)
  have 4: "bothAccept m calls \<longrightarrow>
          (\<forall>t reply more.
             gameCalls (run e (accepts mid more) (step e t (GameReply mid reply) ?s')) =
               gameCalls s @ [?c]
           \<and> confirmations (run e (accepts mid more) (step e t (GameReply mid reply) ?s')) =
               confirmations s @
                 (case reply of
                    GameCreated gid \<Rightarrow>
                      if server s
                      then [(To (socketId (player1 m)),
                               match_confirmed gid (userId (player1 m)) (userId (player2 m))),
                            (To (socketId (player2 m)),
                               match_confirmed gid (userId (player1 m)) (userId (player2 m)))]
                      else []
                  | GameFailed err msg \<Rightarrow> []))"
  proof (intro impI allI)
    fix t reply more
    assume b: "bothAccept m calls"
    from r b have g: "gameCalls ?s' = gameCalls s @ [?c]"
      and a: "awaiting ?s' = awaiting s @ [acceptedBoth m]"
      and sv: "server ?s' = server s"
      and gone: "map_of (pendingMatches ?s') mid = None"
      by simp_all
    have mid: "matchId (acceptedBoth m) = mid" using om by (simp add: open_match_def)
    let ?s2 = "finalizeMatch_resume t (acceptedBoth m) reply (?s'\<lparr> awaiting := awaiting s \<rparr>)"
    have st: "step e t (GameReply mid reply) ?s' = ?s2"
      by (simp add: a takeAwaiting_last[OF fresh mid])
    have "map_of (pendingMatches ?s2) mid = None" using gone by simp
    then have more: "run e (accepts mid more) ?s2 = ?s2" by (rule accepts_unknown)
    have "gameCalls ?s2 = gameCalls s @ [?c]" using g by simp
    moreover have "confirmations ?s2 = confirmations s @
                 (case reply of
                    GameCreated gid \<Rightarrow>
                      if server s
                      then [(To (socketId (player1 m)),
                               match_confirmed gid (userId (player1 m)) (userId (player2 m))),
                            (To (socketId (player2 m)),
                               match_confirmed gid (userId (player1 m)) (userId (player2 m)))]
                      else []
                  | GameFailed err msg \<Rightarrow> [])"
      using 3 sv by (simp add: finalizeMatch_resume_confirmations split: CreateGameResponse.splits)
    ultimately show "gameCalls (run e (accepts mid more) (step e t (GameReply mid reply) ?s')) =
               gameCalls s @ [?c]
           \<and> confirmations (run e (accepts mid more) (step e t (GameReply mid reply) ?s')) =
               confirmations s @
                 (case reply of
                    GameCreated gid \<Rightarrow>
                      if server s
                      then [(To (socketId (player1 m)),
                               match_confirmed gid (userId (player1 m)) (userId (player2 m))),
                            (To (socketId (player2 m)),
                               match_confirmed gid (userId (player1 m)) (userId (player2 m)))]
                      else []
                  | GameFailed err msg \<Rightarrow> [])"
      by (simp only: st more simp_thms)
  qed
  show ?thesis by (rule conjI[OF 1 conjI[OF 2 conjI[OF 3 4]]])
qed

theorem accept_sequence_finalizes_at_most_once_witness:
  "gameCalls (run exampleEnv
       (accepts ''m'' [(2000, ''A''), (2100, ''A''), (2200, ''A''), (2500, ''B'')]) proposedState) =
     [\<lparr> gameId = ''m'', player1Id = ''A'', player2Id = ''B'' \<rparr>]
   \<and> confirmations (run exampleEnv (accepts ''m'' [(3100, ''A'')])
       (step exampleEnv 3000 (GameReply ''m'' (GameCreated ''m''))
         (run exampleEnv
           (accepts ''m'' [(2000, ''A''), (2100, ''A''), (2200, ''A''), (2500, ''B'')]) proposedState))) =
     [(To ''sA'', match_confirmed ''m'' ''A'' ''B''), (To ''sB'', match_confirmed ''m'' ''A'' ''B'')]"
proof -
  let ?m = "\<lparr> matchId = ''m'', expiresAt = 16000,
             player1 = \<lparr> userId = ''A'', socketId = ''sA'', elo = 1500, status = PENDING \<rparr>,
             player2 = \<lparr> userId = ''B'', socketId = ''sB'', elo = 1520, status = PENDING \<rparr>,
             timeoutId = Some 0 \<rparr>"
  let ?calls = "[(2000, ''A''), (2100, ''A''), (2200, ''A''), (2500, ''B'')] :: (int \<times> string) list"
  have om: "open_match proposedState ''m'' ?m" by code_simp
  have fresh: "list_all (\<lambda>m'. matchId m' \<noteq> ''m'') (awaiting proposedState)" by code_simp
  have both: "bothAccept ?m ?calls" by code_simp
  have base: "gameCalls proposedState = []" "confirmations proposedState = []"
    "server proposedState" by code_simp+
  from accept_sequence_finalizes_at_most_once[OF om fresh, of exampleEnv ?calls] both base
  show ?thesis by simp
qed

text \<open>
  Claim C3 as stated fails: a sequence of accept calls by one participant only makes no
  \<^verbatim>\<open>createGame\<close> call, and when both have accepted but the Game service answers with a
  failure, the one \<^verbatim>\<open>createGame\<close> call is followed by no \<^verbatim>\<open>match_confirmed\<close>.
\<close>

theorem accept_sequence_counterexample:
  "gameCalls (run exampleEnv (accepts ''m'' [(2000, ''A''), (2100, ''A'')]) proposedState) = []
   \<and> length (gameCalls bothAcceptedState) = 1
   \<and> confirmations (step exampleEnv 3000
        (GameReply ''m'' (GameFailed ''GAME_ALREADY_EXISTS'' ''fallback'')) bothAcceptedState) = []"
  by code_simp

section \<open>Preservation of the invariant\<close>

lemma invariant_frame:
  assumes "activeQueue s' = activeQueue s" "activeSockets s' = activeSockets s"
    "pendingMatches s' = pendingMatches s" "awaiting s' = awaiting s"
  shows "invariant s' = invariant s"
  using assms
  by (simp add: invariant_def queue_wf_def pending_wf_def awaiting_wf_def unique_users_def
      participants_def)

lemma invariant_emit [simp]:
  "invariant (emitQueueStats s) = invariant s"
  "invariant (emitTo sock ev s) = invariant s"
  by (rule invariant_frame; simp)+

lemma update_fresh: "map_of xs k = None \<Longrightarrow> AList.update k v xs = xs @ [(k, v)]"
  by (induction xs) (auto split: if_splits)

lemma invariant_addPlayer:
  assumes inv: "invariant s" and add: "addPlayer now uid sock el prio s = Inr s'"
  shows "invariant s'"
proof -
  from add have a: "map_of (activeQueue s) uid = None" "uid \<notin> set (participants s)"
    "sock \<notin> activeSockets s"
    and s': "s' = emitQueueStats
            (s\<lparr> activeQueue := AList.update uid (createQueuedPlayer now uid sock el prio) (activeQueue s),
                 activeSockets := insert sock (activeSockets s) \<rparr>)"
    by (simp_all add: addPlayer_Inr_iff)
  have q: "AList.update uid (createQueuedPlayer now uid sock el prio) (activeQueue s) =
      activeQueue s @ [(uid, createQueuedPlayer now uid sock el prio)]"
    using a(1) by (rule update_fresh)
  have nk: "uid \<notin> fst ` set (activeQueue s)" using a(1) by (simp add: map_of_eq_None_iff)
  have P: "userId (createQueuedPlayer now uid sock el prio) = uid"
    "socketId (createQueuedPlayer now uid sock el prio) = sock"
    by (simp_all add: createQueuedPlayer_def)
  from inv a(3) nk have "queue_wf s'"
    by (auto simp: s' q P invariant_def queue_wf_def)
  moreover from inv have "pending_wf s'" "awaiting_wf s'"
    by (simp_all add: s' invariant_def pending_wf_def awaiting_wf_def)
  moreover from inv a(2) nk have "unique_users s'"
    by (auto simp: s' q invariant_def unique_users_def participants_def)
  ultimately show ?thesis by (simp add: invariant_def)
qed

lemma invariant_after_addPlayer:
  "invariant s \<Longrightarrow> invariant (after (addPlayer now uid sock el prio s) s)"
  by (cases "addPlayer now uid sock el prio s") (auto simp: after_simps intro: invariant_addPlayer)

lemma sockets_delete:
  assumes ds: "distinct (map (\<lambda>(k, p). socketId p) q)" and d: "distinct (map fst q)"
    and m: "map_of q u = Some p"
  shows "set (map (\<lambda>(k, p). socketId p) (AList.delete u q)) =
     set (map (\<lambda>(k, p). socketId p) q) - {socketId p}"
proof (intro set_eqI iffI)
  from m have mem: "(u, p) \<in> set q" by (rule map_of_SomeD)
  fix x
  assume "x \<in> set (map (\<lambda>(k, p). socketId p) (AList.delete u q))"
  then obtain k p' where kp: "(k, p') \<in> set q" "k \<noteq> u" "x = socketId p'"
    by (auto simp: AList.delete_eq)
  have "socketId p' \<noteq> socketId p"
  proof
    assume "socketId p' = socketId p"
    from same_socket_same_player[OF ds mem kp(1) this] kp(2) show False by simp
  qed
  with kp show "x \<in> set (map (\<lambda>(k, p). socketId p) q) - {socketId p}" by force
next
  fix x
  assume "x \<in> set (map (\<lambda>(k, p). socketId p) q) - {socketId p}"
  then obtain k p' where kp: "(k, p') \<in> set q" "x = socketId p'" "socketId p' \<noteq> socketId p"
    by auto
  have "k \<noteq> u"
  proof
    assume "k = u"
    with kp(1) d have "map_of q u = Some p'" by simp
    with m kp(3) show False by simp
  qed
  with kp show "x \<in> set (map (\<lambda>(k, p). socketId p) (AList.delete u q))"
    by (force simp: AList.delete_eq)
qed

lemma distinct_map_filter': "distinct (map f xs) \<Longrightarrow> distinct (map f (filter P xs))"
  by (rule distinct_map_filter)

lemma queue_wf_delete:
  assumes wf: "queue_wf s" and m: "map_of (activeQueue s) u = Some p"
  shows "queue_wf (s\<lparr> activeSockets := activeSockets s - {socketId p},
                       activeQueue := AList.delete u (activeQueue s) \<rparr>)"
proof -
  from wf have d: "distinct (map fst (activeQueue s))"
    and ds: "distinct (map (\<lambda>(k, p). socketId p) (activeQueue s))"
    and ids: "list_all (\<lambda>(k, p). userId p = k) (activeQueue s)"
    and sk: "activeSockets s = set (map (\<lambda>(k, p). socketId p) (activeQueue s))"
    by (simp_all add: queue_wf_def)
  have "distinct (map fst (AList.delete u (activeQueue s)))" using d by (rule AList.distinct_delete)
  moreover have "list_all (\<lambda>(k, p). userId p = k) (AList.delete u (activeQueue s))"
    using ids by (auto simp: list_all_iff AList.delete_eq)
  moreover have "distinct (map (\<lambda>(k, p). socketId p) (AList.delete u (activeQueue s)))"
    using ds by (simp add: AList.delete_eq distinct_map_filter)
  moreover have "activeSockets s - {socketId p} =
      set (map (\<lambda>(k, p). socketId p) (AList.delete u (activeQueue s)))"
    using sockets_delete[OF ds d m] sk by simp
  ultimately show ?thesis by (simp add: queue_wf_def)
qed

lemma unique_users_delete_queue:
  "unique_users s \<Longrightarrow> unique_users (s\<lparr> activeQueue := AList.delete u (activeQueue s), activeSockets := x \<rparr>)"
  by (auto simp: unique_users_def participants_def AList.delete_eq distinct_map_filter)

lemma invariant_removePlayer:
  assumes inv: "invariant s"
  shows "invariant (removePlayer x s)"
proof (cases "owner s x")
  case None
  with inv show ?thesis by (simp add: removePlayer_owner invariant_def queue_wf_def)
next
  case (Some up)
  obtain u p where up: "up = (u, p)" by (cases up)
  from inv have d: "distinct (map fst (activeQueue s))" by (simp add: invariant_def queue_wf_def)
  have m: "map_of (activeQueue s) u = Some p"
  proof (cases "map_of (activeQueue s) x")
    case None
    with Some up have "List.find (\<lambda>(uid, p). socketId p = x) (activeQueue s) = Some (u, p)"
      by (simp add: owner_def)
    with d show ?thesis by (rule find_map_of)
  next
    case (Some p')
    with \<open>owner s x = Some up\<close> up show ?thesis by (simp add: owner_def)
  qed
  let ?s1 = "s\<lparr> activeSockets := activeSockets s - {socketId p},
                 activeQueue := AList.delete u (activeQueue s) \<rparr>"
  have r: "removePlayer x s = emitQueueStats ?s1"
    using Some up d by (simp add: removePlayer_owner)
  have "queue_wf ?s1" using inv m by (simp add: invariant_def queue_wf_delete)
  moreover have "unique_users ?s1"
    using inv unique_users_delete_queue[where s = s and u = u and x = "activeSockets s - {socketId p}"]
    by (simp add: invariant_def unique_users_def participants_def)
  moreover have "pending_wf ?s1" "awaiting_wf ?s1"
    using inv by (simp_all add: invariant_def pending_wf_def awaiting_wf_def)
  ultimately have "invariant ?s1" by (simp add: invariant_def)
  then show ?thesis by (simp add: r)
qed

subsection \<open>Users of pending matches under deletion and update\<close>

lemma usersOf_append [simp]: "usersOf (xs @ ys) = usersOf xs @ usersOf ys"
  by (induction xs rule: usersOf.induct) auto

lemma usersOf_delete_subset: "set (usersOf (AList.delete k xs)) \<subseteq> set (usersOf xs)"
  by (induction xs rule: usersOf.induct) (auto simp: AList.delete_eq)

lemma distinct_usersOf_delete:
  "distinct (ks @ usersOf xs) \<Longrightarrow> distinct (ks @ usersOf (AList.delete k xs))"
proof (induction xs rule: usersOf.induct)
  case 1
  then show ?case by simp
next
  case (2 k' m ms)
  from "2.prems" have "distinct (ks @ usersOf ms)" by auto
  note ih = "2.IH"[OF this]
  have sub: "set (usersOf (AList.delete k ms)) \<subseteq> set (usersOf ms)"
    by (rule usersOf_delete_subset)
  show ?case
  proof (cases "k' = k")
    case True
    with ih show ?thesis by simp
  next
    case False
    from "2.prems" have
      "userId (player1 m) \<noteq> userId (player2 m)"
      "userId (player1 m) \<notin> set ks" "userId (player2 m) \<notin> set ks"
      "userId (player1 m) \<notin> set (usersOf ms)" "userId (player2 m) \<notin> set (usersOf ms)"
      by auto
    with sub ih False show ?thesis by auto
  qed
qed

lemma delete_unique_key:
  assumes "distinct (map fst xs)" "xs = ys @ (k, m) # zs"
  shows "AList.delete k xs = ys @ zs"
proof -
  from assms have "k \<notin> fst ` set ys" "k \<notin> fst ` set zs" by auto
  then have "AList.delete k ys = ys" "AList.delete k zs = zs" by simp_all
  then show ?thesis by (simp add: assms(2) AList.delete_eq)
qed

lemma users_of_entry:
  assumes "distinct (ks @ usersOf xs)" and "distinct (map fst xs)" and "map_of xs k = Some m"
  shows "userId (player1 m) \<noteq> userId (player2 m)"
    "userId (player1 m) \<notin> set ks" "userId (player2 m) \<notin> set ks"
    "userId (player1 m) \<notin> set (usersOf (AList.delete k xs))"
    "userId (player2 m) \<notin> set (usersOf (AList.delete k xs))"
proof -
  from assms(3) have "(k, m) \<in> set xs" by (rule map_of_SomeD)
  then obtain ys zs where xs: "xs = ys @ (k, m) # zs" by (auto dest: split_list)
  note del = delete_unique_key[OF assms(2) xs]
  from assms(1) show "userId (player1 m) \<noteq> userId (player2 m)"
    "userId (player1 m) \<notin> set ks" "userId (player2 m) \<notin> set ks"
    "userId (player1 m) \<notin> set (usersOf (AList.delete k xs))"
    "userId (player2 m) \<notin> set (usersOf (AList.delete k xs))"
    unfolding del by (auto simp: xs)
qed

lemma usersOf_update_same:
  "map_of xs k = Some m \<Longrightarrow> userId (player1 m') = userId (player1 m) \<Longrightarrow>
   userId (player2 m') = userId (player2 m) \<Longrightarrow> usersOf (AList.update k m' xs) = usersOf xs"
  by (induction xs rule: usersOf.induct) (auto split: if_splits)

lemma list_all_update:
  "list_all P xs \<Longrightarrow> P (k, v) \<Longrightarrow> list_all P (AList.update k v xs)"
  by (induction xs) auto

lemma list_all_delete: "list_all P xs \<Longrightarrow> list_all P (AList.delete k xs)"
  by (auto simp: list_all_iff AList.delete_eq)

lemma usersOf_update_subset:
  "set (usersOf (AList.update k m' xs)) \<subseteq>
     insert (userId (player1 m')) (insert (userId (player2 m')) (set (usersOf xs)))"
  by (induction xs rule: usersOf.induct) auto

lemma distinct_usersOf_update:
  assumes "distinct (ks @ usersOf xs)"
    and "userId (player1 m') \<noteq> userId (player2 m')"
    and "userId (player1 m') \<notin> set ks" "userId (player2 m') \<notin> set ks"
    and "userId (player1 m') \<notin> set (usersOf xs)" "userId (player2 m') \<notin> set (usersOf xs)"
  shows "distinct (ks @ usersOf (AList.update k m' xs))"
  using assms
proof (induction xs rule: usersOf.induct)
  case 1
  then show ?case by auto
next
  case (2 k' m ms)
  show ?case
  proof (cases "k' = k")
    case True
    with "2.prems" show ?thesis by auto
  next
    case False
    from "2.prems" have pre: "distinct (ks @ usersOf ms)"
      "userId (player1 m') \<notin> set (usersOf ms)" "userId (player2 m') \<notin> set (usersOf ms)"
      by auto
    note ih = "2.IH"[OF pre(1) "2.prems"(2,3,4) pre(2,3)]
    have sub: "set (usersOf (AList.update k m' ms)) \<subseteq>
        insert (userId (player1 m')) (insert (userId (player2 m')) (set (usersOf ms)))"
      by (rule usersOf_update_subset)
    from "2.prems" have hd:
      "userId (player1 m) \<noteq> userId (player2 m)"
      "userId (player1 m) \<notin> set ks" "userId (player2 m) \<notin> set ks"
      "userId (player1 m) \<notin> set (usersOf ms)" "userId (player2 m) \<notin> set (usersOf ms)"
      "userId (player1 m) \<noteq> userId (player1 m')" "userId (player1 m) \<noteq> userId (player2 m')"
      "userId (player2 m) \<noteq> userId (player1 m')" "userId (player2 m) \<noteq> userId (player2 m')"
      by auto
    from ih hd sub False show ?thesis by auto
  qed
qed

subsection \<open>Accept, decline, timeout and the answer of the Game service\<close>

lemma invariantI:
  "queue_wf s \<Longrightarrow> pending_wf s \<Longrightarrow> awaiting_wf s \<Longrightarrow> unique_users s \<Longrightarrow> invariant s"
  by (simp add: invariant_def)

lemma invariant_entry:
  assumes "invariant s" "map_of (pendingMatches s) mid = Some m"
  shows "match_wf (mid, m)" "userId (player1 m) \<noteq> userId (player2 m)"
    "userId (player1 m) \<notin> fst ` set (activeQueue s)" "userId (player2 m) \<notin> fst ` set (activeQueue s)"
    "userId (player1 m) \<notin> set (usersOf (AList.delete mid (pendingMatches s)))"
    "userId (player2 m) \<notin> set (usersOf (AList.delete mid (pendingMatches s)))"
proof -
  from assms(1) have pw: "pending_wf s" and uu: "unique_users s" by (simp_all add: invariant_def)
  from map_of_pending_wf[OF pw assms(2)] show "match_wf (mid, m)" .
  from uu have d: "distinct (map fst (activeQueue s) @ usersOf (pendingMatches s))"
    by (simp add: unique_users_def participants_def)
  from pw have dk: "distinct (map fst (pendingMatches s))" by (simp add: pending_wf_def)
  from users_of_entry[OF d dk assms(2)]
  show "userId (player1 m) \<noteq> userId (player2 m)"
    "userId (player1 m) \<notin> fst ` set (activeQueue s)" "userId (player2 m) \<notin> fst ` set (activeQueue s)"
    "userId (player1 m) \<notin> set (usersOf (AList.delete mid (pendingMatches s)))"
    "userId (player2 m) \<notin> set (usersOf (AList.delete mid (pendingMatches s)))"
    by simp_all
qed

lemma invariant_match_removed:
  assumes inv: "invariant s"
    and fr: "activeQueue s' = activeQueue s" "activeSockets s' = activeSockets s"
      "pendingMatches s' = AList.delete mid (pendingMatches s)"
    and aw: "awaiting_wf s'"
  shows "invariant s'"
proof (rule invariantI)
  from inv fr show "queue_wf s'" by (simp add: invariant_def queue_wf_def)
  from inv fr show "pending_wf s'"
    by (simp add: invariant_def pending_wf_def AList.distinct_delete list_all_delete)
  from aw show "awaiting_wf s'" .
  from inv have "distinct (map fst (activeQueue s) @ usersOf (pendingMatches s))"
    by (simp add: invariant_def unique_users_def participants_def)
  from distinct_usersOf_delete[OF this, of mid] fr show "unique_users s'"
    by (simp add: unique_users_def participants_def)
qed

lemma invariant_accept_step:
  assumes inv: "invariant s" and pm: "map_of (pendingMatches s) mid = Some m"
    and m': "matchId m' = mid" "userId (player1 m') = userId (player1 m)"
      "userId (player2 m') = userId (player2 m)" "socketId (player1 m') = socketId (player1 m)"
      "socketId (player2 m') = socketId (player2 m)"
      "status (player1 m') \<noteq> DECLINED" "status (player2 m') \<noteq> DECLINED"
  shows "invariant
     (if status (player1 m') = ACCEPTED \<and> status (player2 m') = ACCEPTED
      then finalizeMatch_begin e now m' (s\<lparr> pendingMatches := AList.update mid m' (pendingMatches s) \<rparr>)
      else s\<lparr> pendingMatches := AList.update mid m' (pendingMatches s) \<rparr>)"
proof -
  note ent = invariant_entry[OF inv pm]
  from ent(1) have mw: "socketId (player1 m) \<noteq> socketId (player2 m)"
    by (simp add: match_wf_def)
  let ?s1 = "s\<lparr> pendingMatches := AList.update mid m' (pendingMatches s) \<rparr>"
  show ?thesis
  proof (cases "status (player1 m') = ACCEPTED \<and> status (player2 m') = ACCEPTED")
    case True
    let ?s2 = "finalizeMatch_begin e now m' ?s1"
    have "awaiting_wf ?s2"
      using inv ent(2) mw m' by (simp add: invariant_def awaiting_wf_def)
    moreover have "pendingMatches ?s2 = AList.delete mid (pendingMatches s)"
      using m' by (simp add: AList.delete_update_same)
    ultimately have "invariant ?s2"
      using inv by (intro invariant_match_removed[of s ?s2 mid]) simp_all
    with True show ?thesis by simp
  next
    case False
    have wf': "match_wf (mid, m')"
      using mw m' False by (cases "status (player1 m')"; cases "status (player2 m')")
        (auto simp: match_wf_def)
    have users: "usersOf (AList.update mid m' (pendingMatches s)) = usersOf (pendingMatches s)"
      using pm m' by (intro usersOf_update_same) auto
    have "invariant ?s1"
    proof (rule invariantI)
      from inv show "queue_wf ?s1" by (simp add: invariant_def queue_wf_def)
      from inv wf' show "pending_wf ?s1"
        by (simp add: invariant_def pending_wf_def AList.distinct_update list_all_update)
      from inv show "awaiting_wf ?s1" by (simp add: invariant_def awaiting_wf_def)
      from inv users show "unique_users ?s1"
        by (simp add: invariant_def unique_users_def participants_def)
    qed
    with False show ?thesis by auto
  qed
qed

lemma invariant_acceptAs:
  assumes inv: "invariant s" and pm: "map_of (pendingMatches s) mid = Some m"
  shows "invariant (acceptAs e now mid m first s)"
proof -
  from invariant_entry(1)[OF inv pm] have mw: "matchId m = mid"
    "status (player1 m) \<noteq> DECLINED" "status (player2 m) \<noteq> DECLINED"
    by (simp_all add: match_wf_def)
  show ?thesis
  proof (cases first)
    case True
    show ?thesis
    proof (cases "status (player1 m) = PENDING")
      case False
      with inv True show ?thesis by (simp add: acceptAs_def)
    next
      case pend: True
      from invariant_accept_step[OF inv pm, of "m\<lparr> player1 := (player1 m)\<lparr> status := ACCEPTED \<rparr> \<rparr>" e now]
        mw True pend
      show ?thesis by (simp add: acceptAs_def Let_def)
    qed
  next
    case False
    show ?thesis
    proof (cases "status (player2 m) = PENDING")
      case np: False
      with inv False show ?thesis by (simp add: acceptAs_def)
    next
      case pend: True
      from invariant_accept_step[OF inv pm, of "m\<lparr> player2 := (player2 m)\<lparr> status := ACCEPTED \<rparr> \<rparr>" e now]
        mw False pend
      show ?thesis by (simp add: acceptAs_def Let_def)
    qed
  qed
qed

lemma invariant_acceptMatch:
  "invariant s \<Longrightarrow> invariant (after (acceptMatch e now uid mid s) s)"
  by (auto simp: acceptMatch_def after_simps invariant_acceptAs split: option.splits)

lemma invariant_cancelParticipant:
  assumes "invariant s"
  shows "invariant (cancelParticipant e now mid faulty why p s)"
proof (cases "userId p \<in> set faulty")
  case True
  have "invariant (cancelParticipant e now mid faulty why p s) = invariant s"
    using True by (intro invariant_frame) (simp_all add: cancelParticipant_def Let_def)
  with assms show ?thesis by simp
next
  case False
  show ?thesis
  proof (cases "addPlayer now (userId p) (socketId p) (elo p) True s")
    case (Inl err)
    have "invariant (cancelParticipant e now mid faulty why p s) = invariant s"
      using False Inl by (intro invariant_frame) (simp_all add: cancelParticipant_def Let_def)
    with assms show ?thesis by simp
  next
    case (Inr s')
    from invariant_addPlayer[OF assms Inr] False Inr show ?thesis
      by (simp add: cancelParticipant_def Let_def)
  qed
qed

lemma invariant_cancelMatch:
  assumes inv: "invariant s" and pm: "map_of (pendingMatches s) mid = Some m"
  shows "invariant (cancelMatch e now m faulty why s)"
proof -
  from invariant_entry(1)[OF inv pm] have mid: "matchId m = mid" by (simp add: match_wf_def)
  let ?s1 = "clearTimeout (timeoutId m) s"
  let ?s2 = "?s1\<lparr> pendingMatches := AList.delete (matchId m) (pendingMatches ?s1) \<rparr>"
  have "awaiting_wf ?s2" using inv by (simp add: invariant_def awaiting_wf_def)
  then have "invariant ?s2"
    using inv mid by (intro invariant_match_removed[of s ?s2 mid]) simp_all
  then show ?thesis
    by (simp add: cancelMatch_def Let_def invariant_cancelParticipant)
qed

lemma invariant_declineMatch:
  "invariant s \<Longrightarrow> invariant (after (declineMatch e now uid mid s) s)"
  by (auto simp: declineMatch_def after_simps invariant_cancelMatch split: option.splits)

lemma invariant_timers:
  "invariant (s\<lparr> timers := x \<rparr>) = invariant s"
  by (rule invariant_frame) simp_all

lemma invariant_handleMatchTimeout:
  "invariant s \<Longrightarrow> invariant (handleMatchTimeout e now mid s)"
  by (auto simp: handleMatchTimeout_def Let_def invariant_cancelMatch split: option.splits)

lemma invariant_requeueAfterFailure:
  assumes "invariant s"
  shows "invariant (requeueAfterFailure now p s)"
  using requeueAfterFailure_cases[of now p s]
proof (elim disjE exE conjE)
  fix err
  assume "requeueAfterFailure now p s =
         emitTo (socketId p) (queue_joined (userId p) (elo p) now True)
           (s\<lparr> errorLog := errorLog s @ [FailedRequeue (userId p) err] \<rparr>)"
  moreover have "invariant (s\<lparr> errorLog := errorLog s @ [FailedRequeue (userId p) err] \<rparr>) = invariant s"
    by (rule invariant_frame) simp_all
  ultimately show ?thesis using assms by simp
next
  fix s'
  assume "addPlayer now (userId p) (socketId p) (elo p) True s = Inr s'"
    and "requeueAfterFailure now p s = emitTo (socketId p) (queue_joined (userId p) (elo p) now True) s'"
  with invariant_addPlayer[OF assms] show ?thesis by simp
qed

lemma invariant_finalizeMatch_resume:
  "invariant s \<Longrightarrow> invariant (finalizeMatch_resume now m reply s)"
  by (auto simp: finalizeMatch_resume_def handleGameCreationSuccess_def
      handleGameCreationFailure_def Let_def invariant_requeueAfterFailure
      split: CreateGameResponse.splits)

lemma takeAwaiting_subset:
  "takeAwaiting mid xs = Some (m, ys) \<Longrightarrow> set ys \<subseteq> set xs \<and> m \<in> set xs \<and> matchId m = mid"
  by (induction xs arbitrary: ys) (auto split: if_splits option.splits)

lemma invariant_awaiting_subset:
  assumes "invariant s" "set ys \<subseteq> set (awaiting s)"
  shows "invariant (s\<lparr> awaiting := ys \<rparr>)"
proof (rule invariantI)
  from assms show "awaiting_wf (s\<lparr> awaiting := ys \<rparr>)"
    by (auto simp: invariant_def awaiting_wf_def list_all_iff)
qed (use assms(1) in \<open>simp_all add: invariant_def queue_wf_def pending_wf_def unique_users_def participants_def\<close>)

section \<open>The matcher tick\<close>

lemma findOpponent_find:
  "findOpponent e playerA toleranceA matchedIds rest =
     List.find (\<lambda>playerB. userId playerB \<notin> matchedIds \<and>
                  \<bar>elo playerA - elo playerB\<bar> \<le> min toleranceA (BASE_TOLERANCE e * rangeFactor playerB))
       rest"
  by (induction rest) (auto simp: Let_def abs_minus_commute)

lemma findOpponent_Some:
  assumes "findOpponent e playerA toleranceA matchedIds rest = Some playerB"
  shows "playerB \<in> set rest" "userId playerB \<notin> matchedIds"
  using assms by (auto simp: findOpponent_find find_Some_iff)

lemma set_insertBy [simp]: "set (insertBy cmp x xs) = insert x (set xs)"
  by (induction xs) auto

lemma mset_insertBy [simp]: "mset (insertBy cmp x xs) = add_mset x (mset xs)"
  by (induction xs) auto

lemma mset_sortBy [simp]: "mset (sortBy cmp xs) = mset xs"
  by (induction xs) (auto simp: sortBy_def)

lemma set_sortBy [simp]: "set (sortBy cmp xs) = set xs"
  by (metis mset_sortBy set_mset_mset)

lemma distinct_map_sortBy: "distinct (map f (sortBy cmp xs)) = distinct (map f xs)"
proof -
  have "mset (map f (sortBy cmp xs)) = mset (map f xs)" by simp
  then show ?thesis by (rule mset_eq_imp_distinct_iff)
qed

lemma expandRange_ids [simp]:
  "userId (expandRange e now c) = userId c"
  "socketId (expandRange e now c) = socketId c"
  "elo (expandRange e now c) = elo c"
  "priority (expandRange e now c) = priority c"
  "joinTime (expandRange e now c) = joinTime c"
  by (simp_all add: expandRange_def Let_def)

lemma storePlayer_fields [simp]:
  "server (storePlayer p s) = server s"
  "activeSockets (storePlayer p s) = activeSockets s"
  "pendingMatches (storePlayer p s) = pendingMatches s"
  "awaiting (storePlayer p s) = awaiting s"
  "emitted (storePlayer p s) = emitted s"
  "map fst (activeQueue (storePlayer p s)) = map fst (activeQueue s)"
  by (simp_all add: storePlayer_def) (induction "activeQueue s", auto)

lemma map_of_store:
  "map_of (map (\<lambda>(k, q). if k = u then (k, p) else (k, q)) xs) k' =
     (if k' = u then (case map_of xs u of None \<Rightarrow> None | Some q \<Rightarrow> Some p) else map_of xs k')"
  by (induction xs) auto

lemma map_of_storePlayer:
  "map_of (activeQueue (storePlayer p s)) k =
     (if k = userId p then (case map_of (activeQueue s) (userId p) of None \<Rightarrow> None | Some q \<Rightarrow> Some p)
      else map_of (activeQueue s) k)"
  by (simp add: storePlayer_def map_of_store)

lemma sockets_store:
  assumes "map_of xs u = Some c" "socketId p = socketId c" "distinct (map fst xs)"
  shows "map (\<lambda>(k, q). socketId q) (map (\<lambda>(k, q). if k = u then (k, p) else (k, q)) xs) =
         map (\<lambda>(k, q). socketId q) xs"
  using assms
proof (induction xs)
  case Nil
  then show ?case by simp
next
  case (Cons x xs)
  obtain k q where x: "x = (k, q)" by (cases x)
  show ?case
  proof (cases "k = u")
    case True
    with Cons.prems have "q = c" "u \<notin> fst ` set xs" by (auto simp: x)
    then have "map (\<lambda>(k, q). if k = u then (k, p) else (k, q)) xs = xs"
      by (intro map_idI) force
    with True Cons.prems(2) \<open>q = c\<close> show ?thesis by (simp add: x)
  next
    case False
    with Cons show ?thesis by (simp add: x)
  qed
qed

lemma list_all_store:
  "list_all (\<lambda>(k, q). userId q = k) xs \<Longrightarrow>
   list_all (\<lambda>(k, q). userId q = k) (map (\<lambda>(k, q). if k = userId p then (k, p) else (k, q)) xs)"
  by (induction xs) (auto split: if_splits)

lemma invariant_storePlayer:
  assumes inv: "invariant s" and c: "map_of (activeQueue s) (userId p) = Some c"
    and sk: "socketId p = socketId c"
  shows "invariant (storePlayer p s)"
proof (rule invariantI)
  from inv have wf: "queue_wf s" by (simp add: invariant_def)
  then have d: "distinct (map fst (activeQueue s))" by (simp add: queue_wf_def)
  have socks: "map (\<lambda>(k, q). socketId q) (activeQueue (storePlayer p s)) =
      map (\<lambda>(k, q). socketId q) (activeQueue s)"
    using sockets_store[OF c sk d] by (simp add: storePlayer_def)
  have ids: "list_all (\<lambda>(k, q). userId q = k) (activeQueue (storePlayer p s))"
    using wf by (simp add: storePlayer_def queue_wf_def list_all_store)
  from wf socks ids show "queue_wf (storePlayer p s)"
    unfolding queue_wf_def by simp
  from inv show "pending_wf (storePlayer p s)" "awaiting_wf (storePlayer p s)"
    by (simp_all add: invariant_def pending_wf_def awaiting_wf_def)
  from inv show "unique_users (storePlayer p s)"
    by (simp add: invariant_def unique_users_def participants_def)
qed

lemma handleMatchFound_fields [simp]:
  "server (handleMatchFound e now p1 p2 s) = server s"
  "activeQueue (handleMatchFound e now p1 p2 s) =
     AList.delete (userId p2) (AList.delete (userId p1) (activeQueue s))"
  "activeSockets (handleMatchFound e now p1 p2 s) = activeSockets s - {socketId p1} - {socketId p2}"
  "awaiting (handleMatchFound e now p1 p2 s) = awaiting s"
  "pendingMatches (handleMatchFound e now p1 p2 s) =
     AList.update (randomUUID e (uuidCount s))
       \<lparr> matchId = randomUUID e (uuidCount s), expiresAt = now + MATCH_ACCEPT_TIMEOUT_MS,
          player1 = \<lparr> userId = userId p1, socketId = socketId p1, elo = elo p1, status = PENDING \<rparr>,
          player2 = \<lparr> userId = userId p2, socketId = socketId p2, elo = elo p2, status = PENDING \<rparr>,
          timeoutId = Some (nextTimeoutId s) \<rparr>
       (pendingMatches s)"
  by (simp_all add: handleMatchFound_def Let_def)

lemma invariant_handleMatchFound:
  assumes inv: "invariant s"
    and p1: "map_of (activeQueue s) (userId p1) = Some p1"
    and p2: "map_of (activeQueue s) (userId p2) = Some p2"
    and ne: "userId p1 \<noteq> userId p2"
  shows "invariant (handleMatchFound e now p1 p2 s)"
proof (rule invariantI)
  let ?s' = "handleMatchFound e now p1 p2 s"
  let ?mid = "randomUUID e (uuidCount s)"
  let ?m = "\<lparr> matchId = ?mid, expiresAt = now + MATCH_ACCEPT_TIMEOUT_MS,
          player1 = \<lparr> userId = userId p1, socketId = socketId p1, elo = elo p1, status = PENDING \<rparr>,
          player2 = \<lparr> userId = userId p2, socketId = socketId p2, elo = elo p2, status = PENDING \<rparr>,
          timeoutId = Some (nextTimeoutId s) \<rparr>"
  from inv have wf: "queue_wf s" and pw: "pending_wf s" and aw: "awaiting_wf s"
    and uu: "unique_users s"
    by (simp_all add: invariant_def)
  from wf have ds: "distinct (map (\<lambda>(k, p). socketId p) (activeQueue s))"
    by (simp add: queue_wf_def)
  have socks: "socketId p1 \<noteq> socketId p2"
  proof
    assume "socketId p1 = socketId p2"
    from same_socket_same_player[OF ds map_of_SomeD[OF p2] map_of_SomeD[OF p1] this] ne
    show False by simp
  qed
  let ?s1 = "s\<lparr> activeSockets := activeSockets s - {socketId p1},
                 activeQueue := AList.delete (userId p1) (activeQueue s) \<rparr>"
  have wf1: "queue_wf ?s1" using wf p1 by (rule queue_wf_delete)
  have "map_of (activeQueue ?s1) (userId p2) = Some p2" using p2 ne by simp
  from queue_wf_delete[OF wf1 this] show "queue_wf ?s'"
    by (simp add: queue_wf_def)
  have "match_wf (?mid, ?m)" using socks by (simp add: match_wf_def)
  with pw show "pending_wf ?s'"
    by (simp add: pending_wf_def AList.distinct_update list_all_update)
  from aw show "awaiting_wf ?s'" by (simp add: awaiting_wf_def)
  from uu have d: "distinct (map fst (activeQueue s) @ usersOf (pendingMatches s))"
    by (simp add: unique_users_def participants_def)
  let ?ks = "map fst (AList.delete (userId p2) (AList.delete (userId p1) (activeQueue s)))"
  have ks: "set ?ks = fst ` set (activeQueue s) - {userId p1, userId p2}" "distinct ?ks"
    using d by (auto simp: AList.delete_eq distinct_map_filter)
  have k12: "userId p1 \<in> fst ` set (activeQueue s)" "userId p2 \<in> fst ` set (activeQueue s)"
    using p1 p2 by (auto simp flip: dom_map_of_conv_image_fst)
  have d': "distinct (?ks @ usersOf (pendingMatches s))"
    using d ks by auto
  have "distinct (?ks @ usersOf (AList.update ?mid ?m (pendingMatches s)))"
    using d k12 ks ne by (intro distinct_usersOf_update[OF d']) auto
  then show "unique_users ?s'" by (simp add: unique_users_def participants_def)
qed

lemma invariant_pairCandidates:
  assumes "invariant s" "distinct (map userId cs)"
    and "\<And>c. c \<in> set cs \<Longrightarrow> userId c \<notin> matchedIds \<Longrightarrow> map_of (activeQueue s) (userId c) = Some c"
  shows "invariant (pairCandidates e now cs matchedIds s)"
  using assms
proof (induction cs arbitrary: matchedIds s)
  case Nil
  then show ?case by simp
next
  case (Cons c rest)
  note inv = Cons.prems(1) and dist = Cons.prems(2) and q = Cons.prems(3)
  from dist have drest: "distinct (map userId rest)" and fresh: "userId c \<notin> userId ` set rest"
    by simp_all
  show ?case
  proof (cases "userId c \<in> matchedIds")
    case True
    have "invariant (pairCandidates e now rest matchedIds s)"
      using inv drest q by (intro Cons.IH) auto
    with True show ?thesis by simp
  next
    case False
    let ?A = "expandRange e now c"
    let ?s1 = "storePlayer ?A s"
    let ?tol = "BASE_TOLERANCE e * rangeFactor ?A * (if priority ?A then 2 else 1)"
    from q False have qc: "map_of (activeQueue s) (userId c) = Some c" by simp
    have inv1: "invariant ?s1"
      using inv qc by (intro invariant_storePlayer[where c = c]) simp_all
    have qA: "map_of (activeQueue ?s1) (userId ?A) = Some ?A"
      using qc by (simp add: map_of_storePlayer)
    have q1: "map_of (activeQueue ?s1) (userId c') = Some c'"
      if "c' \<in> set rest" "userId c' \<notin> matchedIds" for c'
    proof -
      from that fresh have "userId c' \<noteq> userId c" by (metis image_eqI)
      with q[of c'] that show ?thesis by (simp add: map_of_storePlayer)
    qed
    show ?thesis
    proof (cases "findOpponent e ?A ?tol matchedIds rest")
      case None
      have "invariant (pairCandidates e now rest matchedIds ?s1)"
        using inv1 drest q1 by (intro Cons.IH) auto
      with False None show ?thesis by (simp add: Let_def)
    next
      case (Some B)
      from findOpponent_Some[OF Some] have B: "B \<in> set rest" "userId B \<notin> matchedIds" .
      from B fresh have "userId c \<noteq> userId B" by (metis image_eqI)
      then have ne: "userId ?A \<noteq> userId B" by simp
      let ?s2 = "handleMatchFound e now ?A B ?s1"
      have inv2: "invariant ?s2"
        using inv1 qA q1[OF B] ne by (rule invariant_handleMatchFound)
      have q2: "map_of (activeQueue ?s2) (userId c') = Some c'"
        if "c' \<in> set rest" "userId c' \<notin> insert (userId B) (insert (userId ?A) matchedIds)" for c'
      proof -
        from that have "userId c' \<noteq> userId B" "userId c' \<noteq> userId c" "userId c' \<notin> matchedIds"
          by simp_all
        with q1[OF that(1)] show ?thesis by simp
      qed
      have "invariant (pairCandidates e now rest
               (insert (userId B) (insert (userId ?A) matchedIds)) ?s2)"
        using inv2 drest q2 by (intro Cons.IH) auto
      with False Some show ?thesis by (simp add: Let_def)
    qed
  qed
qed

lemma candidates_in_queue:
  assumes "queue_wf s" "c \<in> set (candidates s)"
  shows "map_of (activeQueue s) (userId c) = Some c"
proof -
  from assms(2) obtain k where k: "(k, c) \<in> set (activeQueue s)"
    by (auto simp: candidates_def)
  with assms(1) have "userId c = k" by (auto simp: queue_wf_def list_all_iff)
  with k assms(1) show ?thesis by (simp add: queue_wf_def)
qed

lemma candidates_userIds:
  assumes "queue_wf s"
  shows "map userId (map snd (activeQueue s)) = map fst (activeQueue s)"
  using assms by (auto simp: queue_wf_def list_all_iff)

lemma distinct_candidates:
  assumes "queue_wf s"
  shows "distinct (map userId (candidates s))"
proof -
  from assms have "distinct (map fst (activeQueue s))" by (simp add: queue_wf_def)
  then have "distinct (map userId (map snd (activeQueue s)))"
    by (simp only: candidates_userIds[OF assms])
  then show ?thesis by (simp only: candidates_def distinct_map_sortBy)
qed

lemma invariant_matchmakingLoop:
  assumes "invariant s"
  shows "invariant (matchmakingLoop e now s)"
proof -
  from assms have wf: "queue_wf s" by (simp add: invariant_def)
  have "invariant (pairCandidates e now (candidates s) {} s)"
    using assms distinct_candidates[OF wf] candidates_in_queue[OF wf]
    by (intro invariant_pairCandidates) auto
  with assms show ?thesis by (simp add: matchmakingLoop_def)
qed

lemma invariant_step:
  assumes "invariant s"
  shows "invariant (step e now a s)"
proof (cases a)
  case (AddPlayer uid sock el prio)
  with assms show ?thesis by (simp add: invariant_after_addPlayer)
next
  case (RemovePlayer x)
  with assms show ?thesis by (simp add: invariant_removePlayer)
next
  case Tick
  with assms show ?thesis by (simp add: invariant_matchmakingLoop)
next
  case (Accept uid mid)
  with assms show ?thesis by (simp add: invariant_acceptMatch)
next
  case (Decline uid mid)
  with assms show ?thesis by (simp add: invariant_declineMatch)
next
  case (TimeoutFires tid)
  with assms show ?thesis
    by (auto simp: invariant_timers invariant_handleMatchTimeout split: option.splits)
next
  case (GameReply mid reply)
  show ?thesis
  proof (cases "takeAwaiting mid (awaiting s)")
    case None
    with assms GameReply show ?thesis by simp
  next
    case (Some r)
    obtain m ys where r: "r = (m, ys)" by (cases r)
    from takeAwaiting_subset[of mid "awaiting s" m ys] Some r
    have "set ys \<subseteq> set (awaiting s)" by simp
    from invariant_awaiting_subset[OF assms this] GameReply Some r show ?thesis
      by (simp add: invariant_finalizeMatch_resume)
  qed
qed

lemma invariant_run: "invariant s \<Longrightarrow> invariant (run e evs s)"
  by (induction evs arbitrary: s) (auto simp: invariant_step)

lemma invariant_initState: "invariant initState"
  by (simp add: invariant_def initState_def queue_wf_def pending_wf_def awaiting_wf_def
      unique_users_def participants_def)

text \<open>
  Claim C2. The initial state satisfies the invariant of the service state, and every
  operation preserves it: \<^verbatim>\<open>addPlayer\<close>, \<^verbatim>\<open>removePlayer\<close>, a matcher tick, accept, decline, a
  ready-check timeout and the answer of the Game service (with the re-queues the last
  three perform). Hence after any sequence of operations every user id occurs at most once
  across the waiting index and the participants of all pending matches, and after a tick
  no user id is both waiting and in a pending match.
\<close>

theorem user_occurs_at_most_once:
  assumes "invariant s"
  shows "invariant initState
     \<and> invariant (step e now a s)
     \<and> invariant (run e evs s)
     \<and> distinct (map fst (activeQueue (run e evs s)) @ participants (run e evs s))
     \<and> set (map fst (activeQueue (matchmakingLoop e now s))) \<inter>
         set (participants (matchmakingLoop e now s)) = {}"
proof -
  have r: "invariant (run e evs s)" using assms by (rule invariant_run)
  have t: "invariant (matchmakingLoop e now s)" using assms by (rule invariant_matchmakingLoop)
  from r have 1: "distinct (map fst (activeQueue (run e evs s)) @ participants (run e evs s))"
    by (simp add: invariant_def unique_users_def)
  from t have 2: "set (map fst (activeQueue (matchmakingLoop e now s))) \<inter>
         set (participants (matchmakingLoop e now s)) = {}"
    by (simp add: invariant_def unique_users_def)
  from invariant_initState invariant_step[OF assms] r 1 2 show ?thesis by simp
qed

theorem user_occurs_at_most_once_witness:
  "distinct (map fst (activeQueue declinedState) @ participants declinedState)
   \<and> map fst (activeQueue proposedState) = []
   \<and> participants proposedState = [''A'', ''B'']
   \<and> map fst (activeQueue declinedState) = [''A'']
   \<and> participants declinedState = []"
proof -
  from user_occurs_at_most_once[OF invariant_initState, of exampleEnv 0 Tick
      "[(0, AddPlayer ''A'' ''sA'' 1500 False), (0, AddPlayer ''B'' ''sB'' 1520 False),
        (1000, Tick), (2000, Decline ''B'' ''m'')]"]
  have "distinct (map fst (activeQueue declinedState) @ participants declinedState)"
    by (simp only: declinedState_def)
  moreover have "map fst (activeQueue proposedState) = []"
    "participants proposedState = [''A'', ''B'']"
    "map fst (activeQueue declinedState) = [''A'']"
    "participants declinedState = []"
    by code_simp+
  ultimately show ?thesis by simp
qed

section \<open>Processing order and pairing rule of a tick\<close>

lemma comparePlayers_precedes: "comparePlayers a b \<le> 0 \<longleftrightarrow> precedes a b"
  by (auto simp: comparePlayers_def precedes_def)

lemma precedes_total: "\<not> precedes a b \<Longrightarrow> precedes b a"
  by (auto simp: precedes_def)

lemma precedes_trans: "precedes a b \<Longrightarrow> precedes b c \<Longrightarrow> precedes a c"
  by (auto simp: precedes_def)

lemma sorted_insertBy:
  "sorted_wrt precedes xs \<Longrightarrow> sorted_wrt precedes (insertBy comparePlayers x xs)"
proof (induction xs)
  case Nil
  then show ?case by simp
next
  case (Cons y ys)
  show ?case
  proof (cases "comparePlayers x y \<le> 0")
    case True
    then have xy: "precedes x y" by (simp add: comparePlayers_precedes)
    have "precedes x z" if "z \<in> set ys" for z
      using Cons.prems that precedes_trans[OF xy] by auto
    with True xy Cons.prems show ?thesis by auto
  next
    case False
    then have "precedes y x" by (simp add: comparePlayers_precedes precedes_total)
    with False Cons show ?thesis by auto
  qed
qed

lemma sorted_candidates: "sorted_wrt precedes (candidates s)"
proof -
  have "sorted_wrt precedes (sortBy comparePlayers xs)" for xs
    by (induction xs) (simp_all add: sortBy_def sorted_insertBy)
  then show ?thesis by (simp add: candidates_def)
qed

lemma findOpponent_firstOpponent:
  "findOpponent e playerA
      (BASE_TOLERANCE e * rangeFactor playerA * (if priority playerA then 2 else 1)) matchedIds later =
   firstOpponent e playerA matchedIds later"
  by (simp add: findOpponent_find firstOpponent_def withinTolerance_def)

text \<open>
  Claim C1. On a tick with at least two waiting players the candidates are the waiting
  players in an order that puts priority players first and then ascends by elo, and the
  tick walks through them in that order. A candidate already matched in this tick is
  skipped. Any other candidate A, after its range expansion, is paired with the first
  later candidate B that is not yet matched and has
  \<open>|A.elo - B.elo| \<le> min (BASE_TOLERANCE * A.rangeFactor * (A.priority ? 2 : 1),
  BASE_TOLERANCE * B.rangeFactor)\<close>, the bonus standing on the side of A only; both are
  then marked as matched and handed to \<^verbatim>\<open>handleMatchFound\<close>. Without such a B, A stays in
  the queue.
\<close>

theorem tick_pairs_first_opponent_within_tolerance:
  assumes "2 \<le> length (activeQueue s)"
  shows "matchmakingLoop e now s = pairCandidates e now (candidates s) {} s
     \<and> sorted_wrt precedes (candidates s)
     \<and> mset (candidates s) = mset (map snd (activeQueue s))
     \<and> (\<forall>c later matchedIds st. userId c \<in> matchedIds \<longrightarrow>
           pairCandidates e now (c # later) matchedIds st = pairCandidates e now later matchedIds st)
     \<and> (\<forall>c later matchedIds st. userId c \<notin> matchedIds \<longrightarrow>
           pairCandidates e now (c # later) matchedIds st =
             (case firstOpponent e (expandRange e now c) matchedIds later of
                None \<Rightarrow> pairCandidates e now later matchedIds (storePlayer (expandRange e now c) st)
              | Some playerB \<Rightarrow>
                  pairCandidates e now later
                    (insert (userId playerB) (insert (userId c) matchedIds))
                    (handleMatchFound e now (expandRange e now c) playerB
                       (storePlayer (expandRange e now c) st))))"
proof -
  have 1: "matchmakingLoop e now s = pairCandidates e now (candidates s) {} s"
    using assms by (simp add: matchmakingLoop_def)
  have 3: "mset (candidates s) = mset (map snd (activeQueue s))"
    by (simp add: candidates_def)
  have 4: "\<forall>c later matchedIds st. userId c \<in> matchedIds \<longrightarrow>
           pairCandidates e now (c # later) matchedIds st = pairCandidates e now later matchedIds st"
    by simp
  have 5: "\<forall>c later matchedIds st. userId c \<notin> matchedIds \<longrightarrow>
           pairCandidates e now (c # later) matchedIds st =
             (case firstOpponent e (expandRange e now c) matchedIds later of
                None \<Rightarrow> pairCandidates e now later matchedIds (storePlayer (expandRange e now c) st)
              | Some playerB \<Rightarrow>
                  pairCandidates e now later
                    (insert (userId playerB) (insert (userId c) matchedIds))
                    (handleMatchFound e now (expandRange e now c) playerB
                       (storePlayer (expandRange e now c) st)))"
    by (simp add: Let_def findOpponent_firstOpponent split: option.splits)
  show ?thesis by (rule conjI[OF 1 conjI[OF sorted_candidates conjI[OF 3 conjI[OF 4 5]]]])
qed

theorem tick_pairs_first_opponent_within_tolerance_witness:
  "map userId (candidates priorityState) = [''P1'', ''P2'', ''C'', ''D'']
   \<and> sorted_wrt precedes (candidates priorityState)
   \<and> participants (matchmakingLoop exampleEnv 1000 priorityState) = [''C'', ''D'']
   \<and> map fst (activeQueue (matchmakingLoop exampleEnv 1000 priorityState)) = [''P1'', ''P2'']
   \<and> matchmakingLoop exampleEnv 1000 priorityState =
       pairCandidates exampleEnv 1000 (candidates priorityState) {} priorityState"
proof -
  have two: "2 \<le> length (activeQueue priorityState)" by code_simp
  have ev: "map userId (candidates priorityState) = [''P1'', ''P2'', ''C'', ''D'']"
    "participants (matchmakingLoop exampleEnv 1000 priorityState) = [''C'', ''D'']"
    "map fst (activeQueue (matchmakingLoop exampleEnv 1000 priorityState)) = [''P1'', ''P2'']"
    by code_simp+
  from tick_pairs_first_opponent_within_tolerance[OF two, of exampleEnv 1000] ev
  show ?thesis by simp
qed

section \<open>Cancelling a pending match\<close>

lemma getActivePenalty_other:
  "uid \<noteq> other \<Longrightarrow>
   getActivePenalty (addPenalty now other d why rows) now' uid = getActivePenalty rows now' uid"
  by (induction rows) (auto simp: getActivePenalty_def addPenalty_def)

text \<open>What \<^verbatim>\<open>cancelMatch\<close> does for a faulty participant.\<close>

lemma cancelParticipant_faulty:
  assumes "userId p \<in> set faulty"
  shows "activeQueue (cancelParticipant e now mid faulty why p s) = activeQueue s"
    "activeSockets (cancelParticipant e now mid faulty why p s) = activeSockets s"
    "pendingMatches (cancelParticipant e now mid faulty why p s) = pendingMatches s"
    "timers (cancelParticipant e now mid faulty why p s) = timers s"
    "server (cancelParticipant e now mid faulty why p s) = server s"
    "penaltyCalls (cancelParticipant e now mid faulty why p s) =
       penaltyCalls s @ [(userId p, PENALTY_DURATION_SECONDS, ''Matchmaking abuse: '' @ why)]"
    "emitted (cancelParticipant e now mid faulty why p s) =
       emitted s @ (if server s then [(To (socketId p), match_cancelled ''penalty_applied'' mid)] else [])"
    "penalties (cancelParticipant e now mid faulty why p s) =
       (if addPenaltyThrows e (userId p) then penalties s
        else addPenalty now (userId p) PENALTY_DURATION_SECONDS (''Matchmaking abuse: '' @ why)
               (penalties s))"
    "errorLog (cancelParticipant e now mid faulty why p s) =
       errorLog s @ (if addPenaltyThrows e (userId p) then [FailedPenalty (userId p)] else [])"
  using assms by (simp_all add: cancelParticipant_def Let_def emitTo_def)

text \<open>What it does for any other participant, by the outcome of the re-queue.\<close>

lemma cancelParticipant_requeued:
  assumes "userId p \<notin> set faulty"
    and "addPlayer now (userId p) (socketId p) (elo p) True s = Inr s1"
  shows "cancelParticipant e now mid faulty why p s =
       emitTo (socketId p) (queue_joined (userId p) (elo p) now True)
         (emitTo (socketId p) (match_cancelled ''opponent_declined'' mid) s1)"
  using assms by (simp add: cancelParticipant_def Let_def)

lemma cancelParticipant_rejected:
  assumes "userId p \<notin> set faulty"
    and "addPlayer now (userId p) (socketId p) (elo p) True s = Inl err"
  shows "cancelParticipant e now mid faulty why p s =
       emitTo (socketId p) (queue_joined (userId p) (elo p) now True)
         (emitTo (socketId p) (match_cancelled ''opponent_declined'' mid)
           (s\<lparr> errorLog := errorLog s @ [FailedRequeue (userId p) err] \<rparr>))"
  using assms by (simp add: cancelParticipant_def Let_def)

lemma addPlayer_emitted:
  assumes "addPlayer now uid sock el prio s = Inr s'"
  shows "emitted s' = emitted s @
     (if server s then [(Broadcast, queue_stats (Suc (length (activeQueue s))) (length (pendingMatches s)))]
      else [])"
    "activeQueue s' = activeQueue s @ [(uid, createQueuedPlayer now uid sock el prio)]"
    "activeSockets s' = insert sock (activeSockets s)"
proof -
  from assms have a: "map_of (activeQueue s) uid = None"
    and s': "s' = emitQueueStats
            (s\<lparr> activeQueue := AList.update uid (createQueuedPlayer now uid sock el prio) (activeQueue s),
                 activeSockets := insert sock (activeSockets s) \<rparr>)"
    by (simp_all add: addPlayer_Inr_iff)
  note q = update_fresh[OF a, of "createQueuedPlayer now uid sock el prio"]
  show "emitted s' = emitted s @
     (if server s then [(Broadcast, queue_stats (Suc (length (activeQueue s))) (length (pendingMatches s)))]
      else [])"
    "activeQueue s' = activeQueue s @ [(uid, createQueuedPlayer now uid sock el prio)]"
    "activeSockets s' = insert sock (activeSockets s)"
    by (simp_all add: s' q emitQueueStats_def getQueueStats_def)
qed

text \<open>The events a participant is sent, whatever else is emitted before them.\<close>

lemma cancelParticipant_emitted:
  "\<exists>pre. emitted (cancelParticipant e now mid faulty why p s) = emitted s @ pre @
     (if \<not> server s then []
      else if userId p \<in> set faulty
           then [(To (socketId p), match_cancelled ''penalty_applied'' mid)]
           else [(To (socketId p), match_cancelled ''opponent_declined'' mid),
                 (To (socketId p), queue_joined (userId p) (elo p) now True)])"
proof (cases "userId p \<in> set faulty")
  case True
  then show ?thesis by (intro exI[of _ "[]"]) (simp add: cancelParticipant_faulty)
next
  case False
  show ?thesis
  proof (cases "addPlayer now (userId p) (socketId p) (elo p) True s")
    case (Inl err)
    show ?thesis
      by (intro exI[of _ "[]"]) (simp add: cancelParticipant_rejected[OF False Inl] emitTo_def False)
  next
    case (Inr s1)
    note em = addPlayer_emitted(1)[OF Inr] and sv = addPlayer_frame(5)[OF Inr]
    show ?thesis
      by (intro exI[of _ "if server s then [(Broadcast, queue_stats (Suc (length (activeQueue s))) (length (pendingMatches s)))] else []"])
         (simp add: cancelParticipant_requeued[OF False Inr] emitTo_def False em sv)
  qed
qed

lemma cancelParticipant_server [simp]:
  "server (cancelParticipant e now mid faulty why p s) = server s"
proof (cases "userId p \<in> set faulty")
  case True
  then show ?thesis by (simp add: cancelParticipant_faulty)
next
  case False
  then show ?thesis
    by (cases "addPlayer now (userId p) (socketId p) (elo p) True s")
       (simp_all add: cancelParticipant_rejected cancelParticipant_requeued addPlayer_frame)
qed

lemma cancelParticipant_pending [simp]:
  "pendingMatches (cancelParticipant e now mid faulty why p s) = pendingMatches s"
  "timers (cancelParticipant e now mid faulty why p s) = timers s"
proof (atomize (full), cases "userId p \<in> set faulty")
  case True
  then show "pendingMatches (cancelParticipant e now mid faulty why p s) = pendingMatches s \<and>
    timers (cancelParticipant e now mid faulty why p s) = timers s"
    by (simp add: cancelParticipant_faulty)
next
  case False
  then show "pendingMatches (cancelParticipant e now mid faulty why p s) = pendingMatches s \<and>
    timers (cancelParticipant e now mid faulty why p s) = timers s"
    by (cases "addPlayer now (userId p) (socketId p) (elo p) True s")
       (simp_all add: cancelParticipant_rejected cancelParticipant_requeued addPlayer_frame)
qed

lemma cancelParticipant_penaltyCalls:
  "penaltyCalls (cancelParticipant e now mid faulty why p s) = penaltyCalls s @
     map (\<lambda>p. (userId p, PENALTY_DURATION_SECONDS, ''Matchmaking abuse: '' @ why))
       (filter (\<lambda>p. userId p \<in> set faulty) [p])"
proof (cases "userId p \<in> set faulty")
  case True
  then show ?thesis by (simp add: cancelParticipant_faulty)
next
  case False
  then show ?thesis
    by (cases "addPlayer now (userId p) (socketId p) (elo p) True s")
       (simp_all add: cancelParticipant_rejected cancelParticipant_requeued addPlayer_frame)
qed


lemma cancelParticipant_keeps:
  assumes "u \<noteq> userId p"
  shows "map_of (activeQueue (cancelParticipant e now mid faulty why p s)) u = map_of (activeQueue s) u"
proof (cases "userId p \<in> set faulty")
  case True
  then show ?thesis by (simp add: cancelParticipant_faulty)
next
  case False
  show ?thesis
  proof (cases "addPlayer now (userId p) (socketId p) (elo p) True s")
    case (Inl err)
    show ?thesis by (simp add: cancelParticipant_rejected[OF False Inl])
  next
    case (Inr s1)
    from assms show ?thesis
      by (simp add: cancelParticipant_requeued[OF False Inr] addPlayer_emitted(2)[OF Inr]
          map_add_def split: option.splits)
  qed
qed

lemma cancelParticipant_errorLog:
  "set (errorLog s) \<subseteq> set (errorLog (cancelParticipant e now mid faulty why p s))"
proof (cases "userId p \<in> set faulty")
  case True
  then show ?thesis by (simp add: cancelParticipant_faulty)
next
  case False
  then show ?thesis
    by (cases "addPlayer now (userId p) (socketId p) (elo p) True s")
       (auto simp: cancelParticipant_rejected cancelParticipant_requeued addPlayer_frame)
qed

text \<open>A participant that can be re-queued still can after the other one was processed.\<close>

lemma cancelParticipant_other:
  assumes ok: "addPlayer now u sock el True s = Inr s1"
    and ne: "userId p \<noteq> u" "socketId p \<noteq> sock"
  shows "\<exists>s2. addPlayer now u sock el True (cancelParticipant e now mid faulty why p s) = Inr s2"
proof -
  let ?s' = "cancelParticipant e now mid faulty why p s"
  from ok have c: "getActivePenalty (penalties s) now u = None" "map_of (activeQueue s) u = None"
      "u \<notin> set (participants s)" "sock \<notin> activeSockets s"
    by (simp_all add: addPlayer_Inr_iff)
  have q: "map_of (activeQueue ?s') u = None"
    using cancelParticipant_keeps[of u p e now mid faulty why s] ne c by simp
  have pa: "u \<notin> set (participants ?s')"
    using c by (simp add: participants_def)
  have pen: "getActivePenalty (penalties ?s') now u = None"
  proof (cases "userId p \<in> set faulty")
    case True
    with c ne show ?thesis by (simp add: cancelParticipant_faulty getActivePenalty_other)
  next
    case False
    with c show ?thesis
      by (cases "addPlayer now (userId p) (socketId p) (elo p) True s")
         (simp_all add: cancelParticipant_rejected cancelParticipant_requeued addPlayer_frame)
  qed
  have so: "sock \<notin> activeSockets ?s'"
  proof (cases "userId p \<in> set faulty")
    case True
    with c show ?thesis by (simp add: cancelParticipant_faulty)
  next
    case False
    with c ne show ?thesis
      by (cases "addPlayer now (userId p) (socketId p) (elo p) True s")
         (simp_all add: cancelParticipant_rejected cancelParticipant_requeued addPlayer_emitted)
  qed
  from q pa pen so show ?thesis by (simp add: addPlayer_Inr_iff)
qed

lemma cancelParticipant_queued:
  assumes "userId p \<notin> set faulty" and "addPlayer now (userId p) (socketId p) (elo p) True s = Inr s1"
  shows "map_of (activeQueue (cancelParticipant e now mid faulty why p s)) (userId p) =
      Some (createQueuedPlayer now (userId p) (socketId p) (elo p) True)"
proof -
  from assms(2) have "map_of (activeQueue s) (userId p) = None" by (simp add: addPlayer_Inr_iff)
  then show ?thesis
    by (simp add: cancelParticipant_requeued[OF assms] addPlayer_emitted(2)[OF assms(2)] map_add_def)
qed

lemma cancelParticipant_not_queued:
  assumes "userId p \<in> set faulty"
  shows "map_of (activeQueue (cancelParticipant e now mid faulty why p s)) u = map_of (activeQueue s) u"
  using assms by (simp add: cancelParticipant_faulty)

lemma cancelParticipant_FailedPenalty:
  assumes "userId p \<in> set faulty" "addPenaltyThrows e (userId p)"
  shows "FailedPenalty (userId p) \<in> set (errorLog (cancelParticipant e now mid faulty why p s))"
  using assms by (simp add: cancelParticipant_faulty)

text \<open>The state in which the two participants are processed.\<close>

lemma cancelMatch_unfold:
  "cancelMatch e now m faulty why s =
     emitQueueStats
       (cancelParticipant e now (matchId m) faulty why (player2 m)
         (cancelParticipant e now (matchId m) faulty why (player1 m)
           ((clearTimeout (timeoutId m) s)
              \<lparr> pendingMatches := AList.delete (matchId m) (pendingMatches s) \<rparr>)))"
  by (simp add: cancelMatch_def Let_def)

lemma cancelMatch_effect:
  assumes inv: "invariant s" and pm: "map_of (pendingMatches s) mid = Some m" and sv: "server s"
    and s': "s' = cancelMatch e now m faulty why s"
  shows "map_of (pendingMatches s') mid = None"
    and "\<forall>t. timeoutId m = Some t \<longrightarrow> map_of (timers s') t = None"
    and "penaltyCalls s' = penaltyCalls s @
           map (\<lambda>p. (userId p, PENALTY_DURATION_SECONDS, ''Matchmaking abuse: '' @ why))
             (filter (\<lambda>p. userId p \<in> set faulty) [player1 m, player2 m])"
    and "\<forall>p. (p = player1 m \<or> p = player2 m) \<and> userId p \<in> set faulty \<longrightarrow>
           (To (socketId p), match_cancelled ''penalty_applied'' mid) \<in> set (newEvents s s')
         \<and> map_of (activeQueue s') (userId p) = None
         \<and> (addPenaltyThrows e (userId p) \<longrightarrow> FailedPenalty (userId p) \<in> set (errorLog s'))"
    and "\<forall>p. (p = player1 m \<or> p = player2 m) \<and> userId p \<notin> set faulty \<longrightarrow>
           (To (socketId p), match_cancelled ''opponent_declined'' mid) \<in> set (newEvents s s')
         \<and> (To (socketId p), queue_joined (userId p) (elo p) now True) \<in> set (newEvents s s')
         \<and> (getActivePenalty (penalties s) now (userId p) = None \<and> socketId p \<notin> activeSockets s \<longrightarrow>
              map_of (activeQueue s') (userId p) =
                Some (createQueuedPlayer now (userId p) (socketId p) (elo p) True))"
proof -
  from invariant_entry[OF inv pm]
  have wf: "match_wf (mid, m)" and ne: "userId (player1 m) \<noteq> userId (player2 m)"
    and nq: "userId (player1 m) \<notin> fst ` set (activeQueue s)" "userId (player2 m) \<notin> fst ` set (activeQueue s)"
    and np: "userId (player1 m) \<notin> set (usersOf (AList.delete mid (pendingMatches s)))"
      "userId (player2 m) \<notin> set (usersOf (AList.delete mid (pendingMatches s)))"
    by blast+
  from wf have mid: "matchId m = mid" and nes: "socketId (player1 m) \<noteq> socketId (player2 m)"
    by (simp_all add: match_wf_def)
  define s2 where "s2 = (clearTimeout (timeoutId m) s)\<lparr> pendingMatches := AList.delete mid (pendingMatches s) \<rparr>"
  define s3 where "s3 = cancelParticipant e now mid faulty why (player1 m) s2"
  define s4 where "s4 = cancelParticipant e now mid faulty why (player2 m) s3"
  have s'4: "s' = emitQueueStats s4"
    by (simp add: s' cancelMatch_unfold mid s4_def s3_def s2_def)
  have f2: "activeQueue s2 = activeQueue s" "activeSockets s2 = activeSockets s"
    "penalties s2 = penalties s" "penaltyCalls s2 = penaltyCalls s" "emitted s2 = emitted s"
    "server s2" "participants s2 = usersOf (AList.delete mid (pendingMatches s))"
    "pendingMatches s2 = AList.delete mid (pendingMatches s)"
    "timers s2 = timers (clearTimeout (timeoutId m) s)"
    using sv by (simp_all add: s2_def participants_def)
  have sv3: "server s3" by (simp add: s3_def f2)
  from nq have q2: "map_of (activeQueue s2) (userId (player1 m)) = None"
      "map_of (activeQueue s2) (userId (player2 m)) = None"
    by (simp_all add: f2 map_of_eq_None_iff)
  show "map_of (pendingMatches s') mid = None"
    by (simp add: s'4 s4_def s3_def f2 AList.delete_conv')
  show "\<forall>t. timeoutId m = Some t \<longrightarrow> map_of (timers s') t = None"
    by (simp add: s'4 s4_def s3_def f2 timers_clearTimeout)
  show "penaltyCalls s' = penaltyCalls s @
           map (\<lambda>p. (userId p, PENALTY_DURATION_SECONDS, ''Matchmaking abuse: '' @ why))
             (filter (\<lambda>p. userId p \<in> set faulty) [player1 m, player2 m])"
    by (simp add: s'4 s4_def s3_def cancelParticipant_penaltyCalls f2)
  obtain pre1 where e3: "emitted s3 = emitted s @ pre1 @
     (if userId (player1 m) \<in> set faulty
      then [(To (socketId (player1 m)), match_cancelled ''penalty_applied'' mid)]
      else [(To (socketId (player1 m)), match_cancelled ''opponent_declined'' mid),
            (To (socketId (player1 m)), queue_joined (userId (player1 m)) (elo (player1 m)) now True)])"
    using cancelParticipant_emitted[of e now mid faulty why "player1 m" s2] f2
    unfolding s3_def by auto
  obtain pre2 where e4: "emitted s4 = emitted s3 @ pre2 @
     (if userId (player2 m) \<in> set faulty
      then [(To (socketId (player2 m)), match_cancelled ''penalty_applied'' mid)]
      else [(To (socketId (player2 m)), match_cancelled ''opponent_declined'' mid),
            (To (socketId (player2 m)), queue_joined (userId (player2 m)) (elo (player2 m)) now True)])"
    using cancelParticipant_emitted[of e now mid faulty why "player2 m" s3] sv3
    unfolding s4_def by auto
  have ev: "set (newEvents s s') \<supseteq> set (newEvents s s3) \<union> set (newEvents s3 s4)"
    by (auto simp: newEvents_def s'4 e3 e4 emitQueueStats_def)
  have ev1: "userId (player1 m) \<in> set faulty \<Longrightarrow>
      (To (socketId (player1 m)), match_cancelled ''penalty_applied'' mid) \<in> set (newEvents s s3)"
    "userId (player1 m) \<notin> set faulty \<Longrightarrow>
      (To (socketId (player1 m)), match_cancelled ''opponent_declined'' mid) \<in> set (newEvents s s3)
      \<and> (To (socketId (player1 m)), queue_joined (userId (player1 m)) (elo (player1 m)) now True)
          \<in> set (newEvents s s3)"
    by (simp_all add: newEvents_def e3)
  have ev2: "userId (player2 m) \<in> set faulty \<Longrightarrow>
      (To (socketId (player2 m)), match_cancelled ''penalty_applied'' mid) \<in> set (newEvents s3 s4)"
    "userId (player2 m) \<notin> set faulty \<Longrightarrow>
      (To (socketId (player2 m)), match_cancelled ''opponent_declined'' mid) \<in> set (newEvents s3 s4)
      \<and> (To (socketId (player2 m)), queue_joined (userId (player2 m)) (elo (player2 m)) now True)
          \<in> set (newEvents s3 s4)"
    by (simp_all add: newEvents_def e4)
  have q1: "map_of (activeQueue s') (userId (player1 m)) = map_of (activeQueue s3) (userId (player1 m))"
    using ne by (simp add: s'4 s4_def cancelParticipant_keeps)
  have q3: "map_of (activeQueue s3) (userId (player2 m)) = None"
    using ne q2 by (simp add: s3_def cancelParticipant_keeps)
  have el: "set (errorLog s3) \<subseteq> set (errorLog s')"
    using cancelParticipant_errorLog[of s3 e now mid faulty why "player2 m"]
    by (simp add: s'4 s4_def emitQueueStats_def)
  have guilty1: "userId (player1 m) \<in> set faulty \<Longrightarrow>
           (To (socketId (player1 m)), match_cancelled ''penalty_applied'' mid) \<in> set (newEvents s s')
         \<and> map_of (activeQueue s') (userId (player1 m)) = None
         \<and> (addPenaltyThrows e (userId (player1 m)) \<longrightarrow>
              FailedPenalty (userId (player1 m)) \<in> set (errorLog s'))"
    using ev ev1(1) q1 q2(1) el
      cancelParticipant_FailedPenalty[of "player1 m" faulty e now mid why s2]
    by (auto simp: s3_def cancelParticipant_not_queued)
  have guilty2: "userId (player2 m) \<in> set faulty \<Longrightarrow>
           (To (socketId (player2 m)), match_cancelled ''penalty_applied'' mid) \<in> set (newEvents s s')
         \<and> map_of (activeQueue s') (userId (player2 m)) = None
         \<and> (addPenaltyThrows e (userId (player2 m)) \<longrightarrow>
              FailedPenalty (userId (player2 m)) \<in> set (errorLog s'))"
    using ev ev2(1) q3
      cancelParticipant_FailedPenalty[of "player2 m" faulty e now mid why s3]
    by (auto simp: s'4 s4_def cancelParticipant_not_queued emitQueueStats_def)
  have ok1: "\<exists>s1. addPlayer now (userId (player1 m)) (socketId (player1 m)) (elo (player1 m)) True s2 = Inr s1"
    if "getActivePenalty (penalties s) now (userId (player1 m)) = None"
      "socketId (player1 m) \<notin> activeSockets s"
    using that q2 np by (simp add: addPlayer_Inr_iff f2)
  have ok2: "\<exists>s1. addPlayer now (userId (player2 m)) (socketId (player2 m)) (elo (player2 m)) True s3 = Inr s1"
    if "getActivePenalty (penalties s) now (userId (player2 m)) = None"
      "socketId (player2 m) \<notin> activeSockets s"
  proof -
    from that q2 np
    have "\<exists>s1. addPlayer now (userId (player2 m)) (socketId (player2 m)) (elo (player2 m)) True s2 = Inr s1"
      by (simp add: addPlayer_Inr_iff f2)
    then obtain s1 where "addPlayer now (userId (player2 m)) (socketId (player2 m)) (elo (player2 m)) True s2 = Inr s1" ..
    from cancelParticipant_other[OF this ne nes] show ?thesis by (simp add: s3_def)
  qed
  have innocent1: "userId (player1 m) \<notin> set faulty \<Longrightarrow>
           (To (socketId (player1 m)), match_cancelled ''opponent_declined'' mid) \<in> set (newEvents s s')
         \<and> (To (socketId (player1 m)), queue_joined (userId (player1 m)) (elo (player1 m)) now True)
              \<in> set (newEvents s s')
         \<and> (getActivePenalty (penalties s) now (userId (player1 m)) = None \<and>
              socketId (player1 m) \<notin> activeSockets s \<longrightarrow>
              map_of (activeQueue s') (userId (player1 m)) =
                Some (createQueuedPlayer now (userId (player1 m)) (socketId (player1 m)) (elo (player1 m)) True))"
    using ev ev1(2) q1 ok1 by (auto simp: s3_def cancelParticipant_queued)
  have innocent2: "userId (player2 m) \<notin> set faulty \<Longrightarrow>
           (To (socketId (player2 m)), match_cancelled ''opponent_declined'' mid) \<in> set (newEvents s s')
         \<and> (To (socketId (player2 m)), queue_joined (userId (player2 m)) (elo (player2 m)) now True)
              \<in> set (newEvents s s')
         \<and> (getActivePenalty (penalties s) now (userId (player2 m)) = None \<and>
              socketId (player2 m) \<notin> activeSockets s \<longrightarrow>
              map_of (activeQueue s') (userId (player2 m)) =
                Some (createQueuedPlayer now (userId (player2 m)) (socketId (player2 m)) (elo (player2 m)) True))"
    using ev ev2(2) ok2 by (auto simp: s'4 s4_def cancelParticipant_queued)
  from guilty1 guilty2
  show "\<forall>p. (p = player1 m \<or> p = player2 m) \<and> userId p \<in> set faulty \<longrightarrow>
           (To (socketId p), match_cancelled ''penalty_applied'' mid) \<in> set (newEvents s s')
         \<and> map_of (activeQueue s') (userId p) = None
         \<and> (addPenaltyThrows e (userId p) \<longrightarrow> FailedPenalty (userId p) \<in> set (errorLog s'))"
    by auto
  from innocent1 innocent2
  show "\<forall>p. (p = player1 m \<or> p = player2 m) \<and> userId p \<notin> set faulty \<longrightarrow>
           (To (socketId p), match_cancelled ''opponent_declined'' mid) \<in> set (newEvents s s')
         \<and> (To (socketId p), queue_joined (userId p) (elo p) now True) \<in> set (newEvents s s')
         \<and> (getActivePenalty (penalties s) now (userId p) = None \<and> socketId p \<notin> activeSockets s \<longrightarrow>
              map_of (activeQueue s') (userId p) =
                Some (createQueuedPlayer now (userId p) (socketId p) (elo p) True))"
    by auto
qed

text \<open>
  Claim C5. In a reachable state with the socket server attached, let \<open>m\<close> be the pending
  match \<open>mid\<close>. A decline by either participant runs \<^verbatim>\<open>cancelMatch\<close> with that participant
  as the only faulty one and the reason \<open>''declined''\<close>; the expiry of the match's timer
  runs it with the participants still \<open>PENDING\<close> as the faulty ones and the reason
  \<open>''timeout''\<close>. Whatever the faulty list and the reason, \<^verbatim>\<open>cancelMatch\<close> removes the
  match and cancels its timer, calls \<^verbatim>\<open>addPenalty(userId, 300, "Matchmaking abuse: " +
  reason)\<close> exactly for the faulty participants, sends each of them \<open>match_cancelled\<close>
  with the reason \<open>penalty_applied\<close> and leaves them out of the waiting index, and sends
  every other participant \<open>match_cancelled\<close> with the reason \<open>opponent_declined\<close> and
  \<open>queue_joined\<close> with \<open>priority = true\<close>; such a participant is put back in the waiting
  index with \<open>priority = true\<close> and the time of the cancel whenever \<^verbatim>\<open>addPlayer\<close> accepts
  it, that is when it has no active penalty and its socket is not in use. All this holds
  for every behaviour of the penalty store: a failing \<^verbatim>\<open>addPenalty\<close> is logged and the
  other participant is processed all the same.
\<close>

theorem cancel_penalizes_faulty_and_requeues_others:
  assumes inv: "invariant s" and pm: "map_of (pendingMatches s) mid = Some m" and sv: "server s"
  shows "(\<forall>uid. uid = userId (player1 m) \<or> uid = userId (player2 m) \<longrightarrow>
            declineMatch e now uid mid s = Inr (cancelMatch e now m [uid] ''declined'' s))
     \<and> (\<forall>tid. map_of (timers s) tid = Some mid \<longrightarrow>
            step e now (TimeoutFires tid) s =
              cancelMatch e now m
                (map userId (filter (\<lambda>p. status p = PENDING) [player1 m, player2 m])) ''timeout''
                (s\<lparr> timers := filter (\<lambda>(t', m). t' \<noteq> tid) (timers s) \<rparr>))
     \<and> (\<forall>faulty why pendingTimers s'.
            s' = cancelMatch e now m faulty why (s\<lparr> timers := pendingTimers \<rparr>) \<longrightarrow>
              map_of (pendingMatches s') mid = None
            \<and> (\<forall>t. timeoutId m = Some t \<longrightarrow> map_of (timers s') t = None)
            \<and> penaltyCalls s' = penaltyCalls s @
                 map (\<lambda>p. (userId p, 300, ''Matchmaking abuse: '' @ why))
                   (filter (\<lambda>p. userId p \<in> set faulty) [player1 m, player2 m])
            \<and> (\<forall>p. (p = player1 m \<or> p = player2 m) \<and> userId p \<in> set faulty \<longrightarrow>
                   (To (socketId p), match_cancelled ''penalty_applied'' mid) \<in> set (newEvents s s')
                 \<and> map_of (activeQueue s') (userId p) = None
                 \<and> (addPenaltyThrows e (userId p) \<longrightarrow> FailedPenalty (userId p) \<in> set (errorLog s')))
            \<and> (\<forall>p. (p = player1 m \<or> p = player2 m) \<and> userId p \<notin> set faulty \<longrightarrow>
                   (To (socketId p), match_cancelled ''opponent_declined'' mid) \<in> set (newEvents s s')
                 \<and> (To (socketId p), queue_joined (userId p) (elo p) now True) \<in> set (newEvents s s')
                 \<and> (getActivePenalty (penalties s) now (userId p) = None \<and>
                      socketId p \<notin> activeSockets s \<longrightarrow>
                      map_of (activeQueue s') (userId p) =
                        Some (createQueuedPlayer now (userId p) (socketId p) (elo p) True))))"
proof -
  have decline: "\<forall>uid. uid = userId (player1 m) \<or> uid = userId (player2 m) \<longrightarrow>
            declineMatch e now uid mid s = Inr (cancelMatch e now m [uid] ''declined'' s)"
    using pm by (auto simp: declineMatch_def)
  have timeout: "\<forall>tid. map_of (timers s) tid = Some mid \<longrightarrow>
            step e now (TimeoutFires tid) s =
              cancelMatch e now m
                (map userId (filter (\<lambda>p. status p = PENDING) [player1 m, player2 m])) ''timeout''
                (s\<lparr> timers := filter (\<lambda>(t', m). t' \<noteq> tid) (timers s) \<rparr>)"
    using pm by (simp add: handleMatchTimeout_def Let_def)
  have cancel: "\<forall>faulty why pendingTimers s'.
            s' = cancelMatch e now m faulty why (s\<lparr> timers := pendingTimers \<rparr>) \<longrightarrow>
              map_of (pendingMatches s') mid = None
            \<and> (\<forall>t. timeoutId m = Some t \<longrightarrow> map_of (timers s') t = None)
            \<and> penaltyCalls s' = penaltyCalls s @
                 map (\<lambda>p. (userId p, 300, ''Matchmaking abuse: '' @ why))
                   (filter (\<lambda>p. userId p \<in> set faulty) [player1 m, player2 m])
            \<and> (\<forall>p. (p = player1 m \<or> p = player2 m) \<and> userId p \<in> set faulty \<longrightarrow>
                   (To (socketId p), match_cancelled ''penalty_applied'' mid) \<in> set (newEvents s s')
                 \<and> map_of (activeQueue s') (userId p) = None
                 \<and> (addPenaltyThrows e (userId p) \<longrightarrow> FailedPenalty (userId p) \<in> set (errorLog s')))
            \<and> (\<forall>p. (p = player1 m \<or> p = player2 m) \<and> userId p \<notin> set faulty \<longrightarrow>
                   (To (socketId p), match_cancelled ''opponent_declined'' mid) \<in> set (newEvents s s')
                 \<and> (To (socketId p), queue_joined (userId p) (elo p) now True) \<in> set (newEvents s s')
                 \<and> (getActivePenalty (penalties s) now (userId p) = None \<and>
                      socketId p \<notin> activeSockets s \<longrightarrow>
                      map_of (activeQueue s') (userId p) =
                        Some (createQueuedPlayer now (userId p) (socketId p) (elo p) True)))"
  proof (intro allI impI)
    fix faulty why pendingTimers s'
    assume s': "s' = cancelMatch e now m faulty why (s\<lparr> timers := pendingTimers \<rparr>)"
    let ?s0 = "s\<lparr> timers := pendingTimers \<rparr>"
    have inv0: "invariant ?s0" using inv by (simp add: invariant_timers)
    have pm0: "map_of (pendingMatches ?s0) mid = Some m" using pm by simp
    have sv0: "server ?s0" using sv by simp
    have ne: "newEvents ?s0 s' = newEvents s s'" by (simp add: newEvents_def)
    note eff = cancelMatch_effect[OF inv0 pm0 sv0 s', unfolded ne]
    from eff(3) have calls: "penaltyCalls s' = penaltyCalls s @
                 map (\<lambda>p. (userId p, 300, ''Matchmaking abuse: '' @ why))
                   (filter (\<lambda>p. userId p \<in> set faulty) [player1 m, player2 m])"
      by (simp add: PENALTY_DURATION_SECONDS_def)
    from eff(5) have innocent: "\<forall>p. (p = player1 m \<or> p = player2 m) \<and> userId p \<notin> set faulty \<longrightarrow>
                   (To (socketId p), match_cancelled ''opponent_declined'' mid) \<in> set (newEvents s s')
                 \<and> (To (socketId p), queue_joined (userId p) (elo p) now True) \<in> set (newEvents s s')
                 \<and> (getActivePenalty (penalties s) now (userId p) = None \<and>
                      socketId p \<notin> activeSockets s \<longrightarrow>
                      map_of (activeQueue s') (userId p) =
                        Some (createQueuedPlayer now (userId p) (socketId p) (elo p) True))"
      by simp
    show "map_of (pendingMatches s') mid = None
            \<and> (\<forall>t. timeoutId m = Some t \<longrightarrow> map_of (timers s') t = None)
            \<and> penaltyCalls s' = penaltyCalls s @
                 map (\<lambda>p. (userId p, 300, ''Matchmaking abuse: '' @ why))
                   (filter (\<lambda>p. userId p \<in> set faulty) [player1 m, player2 m])
            \<and> (\<forall>p. (p = player1 m \<or> p = player2 m) \<and> userId p \<in> set faulty \<longrightarrow>
                   (To (socketId p), match_cancelled ''penalty_applied'' mid) \<in> set (newEvents s s')
                 \<and> map_of (activeQueue s') (userId p) = None
                 \<and> (addPenaltyThrows e (userId p) \<longrightarrow> FailedPenalty (userId p) \<in> set (errorLog s')))
            \<and> (\<forall>p. (p = player1 m \<or> p = player2 m) \<and> userId p \<notin> set faulty \<longrightarrow>
                   (To (socketId p), match_cancelled ''opponent_declined'' mid) \<in> set (newEvents s s')
                 \<and> (To (socketId p), queue_joined (userId p) (elo p) now True) \<in> set (newEvents s s')
                 \<and> (getActivePenalty (penalties s) now (userId p) = None \<and>
                      socketId p \<notin> activeSockets s \<longrightarrow>
                      map_of (activeQueue s') (userId p) =
                        Some (createQueuedPlayer now (userId p) (socketId p) (elo p) True)))"
      by (rule conjI[OF eff(1) conjI[OF eff(2) conjI[OF calls conjI[OF eff(4) innocent]]]])
  qed
  show ?thesis by (rule conjI[OF decline conjI[OF timeout cancel]])
qed

theorem cancel_penalizes_faulty_and_requeues_others_witness:
  "invariant proposedState \<and> server proposedState
   \<and> penaltyCalls declinedFailingState = [(''B'', 300, ''Matchmaking abuse: declined'')]
   \<and> FailedPenalty ''B'' \<in> set (errorLog declinedFailingState)
   \<and> map_of (pendingMatches declinedFailingState) ''m'' = None
   \<and> map_of (timers declinedFailingState) 0 = None
   \<and> (To ''sB'', match_cancelled ''penalty_applied'' ''m'') \<in> set (newEvents proposedState declinedFailingState)
   \<and> (To ''sA'', match_cancelled ''opponent_declined'' ''m'') \<in> set (newEvents proposedState declinedFailingState)
   \<and> (To ''sA'', queue_joined ''A'' 1500 2000 True) \<in> set (newEvents proposedState declinedFailingState)
   \<and> map_of (activeQueue declinedFailingState) ''A'' = Some (createQueuedPlayer 2000 ''A'' ''sA'' 1500 True)
   \<and> map_of (activeQueue declinedFailingState) ''B'' = None"
proof -
  let ?m = "\<lparr> matchId = ''m'', expiresAt = 16000,
             player1 = \<lparr> userId = ''A'', socketId = ''sA'', elo = 1500, status = PENDING \<rparr>,
             player2 = \<lparr> userId = ''B'', socketId = ''sB'', elo = 1520, status = PENDING \<rparr>,
             timeoutId = Some 0 \<rparr>"
  have inv: "invariant proposedState"
    unfolding proposedState_def by (rule invariant_run[OF invariant_initState])
  have pm: "map_of (pendingMatches proposedState) ''m'' = Some ?m" by code_simp
  have sv: "server proposedState" by code_simp
  have pc: "penaltyCalls proposedState = []" by code_simp
  have free: "getActivePenalty (penalties proposedState) 2000 ''A'' = None"
    "''sA'' \<notin> activeSockets proposedState"
    by code_simp+
  have thr: "addPenaltyThrows failingStoreEnv ''B''" by (simp add: failingStoreEnv_def)
  note c5 = cancel_penalizes_faulty_and_requeues_others[OF inv pm sv, of failingStoreEnv 2000]
  from c5 have "\<forall>uid. uid = userId (player1 ?m) \<or> uid = userId (player2 ?m) \<longrightarrow>
            declineMatch failingStoreEnv 2000 uid ''m'' proposedState =
              Inr (cancelMatch failingStoreEnv 2000 ?m [uid] ''declined'' proposedState)"
    by (rule conjunct1)
  then have d: "declineMatch failingStoreEnv 2000 ''B'' ''m'' proposedState =
              Inr (cancelMatch failingStoreEnv 2000 ?m [''B''] ''declined'' proposedState)"
    by simp
  have s': "declinedFailingState =
      cancelMatch failingStoreEnv 2000 ?m [''B''] ''declined'' (proposedState\<lparr> timers := timers proposedState \<rparr>)"
    by (simp add: declinedFailingState_def d after_simps)
  note eff = c5[THEN conjunct2, THEN conjunct2, THEN spec, THEN spec, THEN spec, THEN spec,
      THEN mp, OF s']
  note g = eff[THEN conjunct2, THEN conjunct2, THEN conjunct2, THEN conjunct1, THEN spec,
      of "player2 ?m"]
  note i = eff[THEN conjunct2, THEN conjunct2, THEN conjunct2, THEN conjunct2, THEN spec,
      of "player1 ?m"]
  from g thr have guilty: "(To ''sB'', match_cancelled ''penalty_applied'' ''m'')
                \<in> set (newEvents proposedState declinedFailingState)
           \<and> map_of (activeQueue declinedFailingState) ''B'' = None
           \<and> FailedPenalty ''B'' \<in> set (errorLog declinedFailingState)"
    by simp
  from i free have innocent: "(To ''sA'', match_cancelled ''opponent_declined'' ''m'')
                \<in> set (newEvents proposedState declinedFailingState)
           \<and> (To ''sA'', queue_joined ''A'' 1500 2000 True)
                \<in> set (newEvents proposedState declinedFailingState)
           \<and> map_of (activeQueue declinedFailingState) ''A'' =
                  Some (createQueuedPlayer 2000 ''A'' ''sA'' 1500 True)"
    by simp
  from eff[THEN conjunct1] have gone: "map_of (pendingMatches declinedFailingState) ''m'' = None" .
  from eff[THEN conjunct2, THEN conjunct1] have timer: "map_of (timers declinedFailingState) 0 = None"
    by simp
  from eff[THEN conjunct2, THEN conjunct2, THEN conjunct1] pc
  have calls: "penaltyCalls declinedFailingState = [(''B'', 300, ''Matchmaking abuse: declined'')]"
    by simp
  note rest = gone timer calls
  from inv sv guilty innocent rest show ?thesis by simp
qed

section \<open>Re-queueing after a failed game creation\<close>

text \<open>\<^verbatim>\<open>addPlayer\<close> decides from the caller's penalty, its entry in the waiting index,
  the pending matches and the use of its socket only.\<close>

lemma addPlayer_same_decision:
  assumes "getActivePenalty (penalties s2) now uid = getActivePenalty (penalties s) now uid"
    and "map_of (activeQueue s2) uid = map_of (activeQueue s) uid"
    and "pendingMatches s2 = pendingMatches s"
    and "sock \<in> activeSockets s2 \<longleftrightarrow> sock \<in> activeSockets s"
  shows "(addPlayer now uid sock el prio s2 = Inl err) = (addPlayer now uid sock el prio s = Inl err)"
    and "(\<exists>x. addPlayer now uid sock el prio s2 = Inr x) = (\<exists>x. addPlayer now uid sock el prio s = Inr x)"
  using assms by (auto simp: addPlayer_def isUserInPendingMatch_def split: option.splits)

lemma requeueAfterFailure_rejected:
  "addPlayer now (userId p) (socketId p) (elo p) True s = Inl err \<Longrightarrow>
   requeueAfterFailure now p s =
     emitTo (socketId p) (queue_joined (userId p) (elo p) now True)
       (s\<lparr> errorLog := errorLog s @ [FailedRequeue (userId p) err] \<rparr>)"
  by (simp add: requeueAfterFailure_def)

lemma requeueAfterFailure_requeued:
  "addPlayer now (userId p) (socketId p) (elo p) True s = Inr s1 \<Longrightarrow>
   requeueAfterFailure now p s = emitTo (socketId p) (queue_joined (userId p) (elo p) now True) s1"
  by (simp add: requeueAfterFailure_def)

lemma requeueAfterFailure_emitted:
  "\<exists>pre. emitted (requeueAfterFailure now p s) = emitted s @ pre @
     (if server s then [(To (socketId p), queue_joined (userId p) (elo p) now True)] else [])"
proof (cases "addPlayer now (userId p) (socketId p) (elo p) True s")
  case (Inl err)
  show ?thesis
    by (intro exI[of _ "[]"]) (simp add: requeueAfterFailure_rejected[OF Inl] emitTo_def)
next
  case (Inr s1)
  note em = addPlayer_emitted(1)[OF Inr] and sv = addPlayer_frame(5)[OF Inr]
  show ?thesis
    by (intro exI[of _ "if server s then [(Broadcast, queue_stats (Suc (length (activeQueue s))) (length (pendingMatches s)))] else []"])
       (simp add: requeueAfterFailure_requeued[OF Inr] emitTo_def em sv)
qed

lemma requeueAfterFailure_errorLog:
  "set (errorLog s) \<subseteq> set (errorLog (requeueAfterFailure now p s))"
  by (cases "addPlayer now (userId p) (socketId p) (elo p) True s")
     (auto simp: requeueAfterFailure_rejected requeueAfterFailure_requeued addPlayer_frame)

text \<open>Processing one participant leaves the decision for the other one as it was.\<close>

lemma requeueAfterFailure_agree:
  assumes "u \<noteq> userId p"
  shows "getActivePenalty (penalties (requeueAfterFailure now p s)) now' u =
           getActivePenalty (penalties s) now' u"
    and "map_of (activeQueue (requeueAfterFailure now p s)) u = map_of (activeQueue s) u"
proof -
  show "getActivePenalty (penalties (requeueAfterFailure now p s)) now' u =
           getActivePenalty (penalties s) now' u"
    by (cases "addPlayer now (userId p) (socketId p) (elo p) True s")
       (simp_all add: requeueAfterFailure_rejected requeueAfterFailure_requeued addPlayer_frame)
  show "map_of (activeQueue (requeueAfterFailure now p s)) u = map_of (activeQueue s) u"
    using assms
    by (cases "addPlayer now (userId p) (socketId p) (elo p) True s")
       (simp_all add: requeueAfterFailure_rejected requeueAfterFailure_requeued addPlayer_emitted
          map_add_def split: option.splits)
qed

lemma requeueAfterFailure_sockets:
  "sock \<noteq> socketId p \<Longrightarrow>
     sock \<in> activeSockets (requeueAfterFailure now p s) \<longleftrightarrow> sock \<in> activeSockets s"
  by (cases "addPlayer now (userId p) (socketId p) (elo p) True s")
     (simp_all add: requeueAfterFailure_rejected requeueAfterFailure_requeued addPlayer_emitted)

lemma requeueAfterFailure_outcome:
  shows "addPlayer now (userId p) (socketId p) (elo p) True s = Inr s1 \<Longrightarrow>
      map_of (activeQueue (requeueAfterFailure now p s)) (userId p) =
        Some (createQueuedPlayer now (userId p) (socketId p) (elo p) True)"
    and "addPlayer now (userId p) (socketId p) (elo p) True s = Inl err \<Longrightarrow>
      FailedRequeue (userId p) err \<in> set (errorLog (requeueAfterFailure now p s)) \<and>
      activeQueue (requeueAfterFailure now p s) = activeQueue s"
proof -
  assume ok: "addPlayer now (userId p) (socketId p) (elo p) True s = Inr s1"
  then have "map_of (activeQueue s) (userId p) = None" by (simp add: addPlayer_Inr_iff)
  then show "map_of (activeQueue (requeueAfterFailure now p s)) (userId p) =
        Some (createQueuedPlayer now (userId p) (socketId p) (elo p) True)"
    by (simp add: requeueAfterFailure_requeued[OF ok] addPlayer_emitted(2)[OF ok] map_add_def)
next
  assume "addPlayer now (userId p) (socketId p) (elo p) True s = Inl err"
  then show "FailedRequeue (userId p) err \<in> set (errorLog (requeueAfterFailure now p s)) \<and>
      activeQueue (requeueAfterFailure now p s) = activeQueue s"
    by (simp add: requeueAfterFailure_rejected)
qed

text \<open>The states \<^verbatim>\<open>handleGameCreationFailure\<close> goes through.\<close>

lemma failure_reply_effect:
  assumes inv: "invariant s" and sv: "server s"
    and aw: "takeAwaiting mid (awaiting s) = Some (m, others)"
    and s': "s' = step e now (GameReply mid (GameFailed errorCode message)) s"
  shows "(To (socketId (player1 m)), match_failed mid ''game_creation_failed'' errorCode message)
            \<in> set (newEvents s s')"
    and "(To (socketId (player2 m)), match_failed mid ''game_creation_failed'' errorCode message)
            \<in> set (newEvents s s')"
    and "(To (socketId (player1 m)), queue_joined (userId (player1 m)) (elo (player1 m)) now True)
            \<in> set (newEvents s s')"
    and "(To (socketId (player2 m)), queue_joined (userId (player2 m)) (elo (player2 m)) now True)
            \<in> set (newEvents s s')"
    and "\<And>p s1. p = player1 m \<or> p = player2 m \<Longrightarrow>
           addPlayer now (userId p) (socketId p) (elo p) True s = Inr s1 \<Longrightarrow>
           map_of (activeQueue s') (userId p) =
             Some (createQueuedPlayer now (userId p) (socketId p) (elo p) True)"
    and "\<And>p err. p = player1 m \<or> p = player2 m \<Longrightarrow>
           addPlayer now (userId p) (socketId p) (elo p) True s = Inl err \<Longrightarrow>
           FailedRequeue (userId p) err \<in> set (errorLog s') \<and>
           map_of (activeQueue s') (userId p) = map_of (activeQueue s) (userId p)"
proof -
  from takeAwaiting_subset[OF aw] have mem: "m \<in> set (awaiting s)" and mid: "matchId m = mid"
    by simp_all
  from inv mem have ne: "userId (player1 m) \<noteq> userId (player2 m)"
      and nes: "socketId (player1 m) \<noteq> socketId (player2 m)"
    by (auto simp: invariant_def awaiting_wf_def list_all_iff)
  let ?F = "match_failed mid ''game_creation_failed'' errorCode message"
  define t1 where "t1 = emitTo (socketId (player2 m)) ?F
                 (emitTo (socketId (player1 m)) ?F (s\<lparr> awaiting := others \<rparr>))"
  define t2 where "t2 = requeueAfterFailure now (player1 m) t1"
  define t3 where "t3 = requeueAfterFailure now (player2 m) t2"
  have s'3: "s' = emitQueueStats t3"
    using aw
    by (simp add: s' finalizeMatch_resume_def handleGameCreationFailure_def Let_def mid
        t3_def t2_def t1_def)
  have f1: "activeQueue t1 = activeQueue s" "activeSockets t1 = activeSockets s"
    "penalties t1 = penalties s" "pendingMatches t1 = pendingMatches s" "server t1"
    "errorLog t1 = errorLog s"
    "emitted t1 = emitted s @ [(To (socketId (player1 m)), ?F), (To (socketId (player2 m)), ?F)]"
    using sv by (simp_all add: t1_def emitTo_def)
  have sv2: "server t2" by (simp add: t2_def f1)
  have sv3: "server t3" by (simp add: t3_def sv2)
  obtain pre1 where e2: "emitted t2 = emitted t1 @ pre1 @
      [(To (socketId (player1 m)), queue_joined (userId (player1 m)) (elo (player1 m)) now True)]"
    using requeueAfterFailure_emitted[of now "player1 m" t1] f1(5) unfolding t2_def by auto
  obtain pre2 where e3: "emitted t3 = emitted t2 @ pre2 @
      [(To (socketId (player2 m)), queue_joined (userId (player2 m)) (elo (player2 m)) now True)]"
    using requeueAfterFailure_emitted[of now "player2 m" t2] sv2 unfolding t3_def by auto
  have em: "newEvents s s' =
      [(To (socketId (player1 m)), ?F), (To (socketId (player2 m)), ?F)] @ pre1 @
      [(To (socketId (player1 m)), queue_joined (userId (player1 m)) (elo (player1 m)) now True)] @ pre2 @
      [(To (socketId (player2 m)), queue_joined (userId (player2 m)) (elo (player2 m)) now True)] @
      [(Broadcast, queue_stats (length (activeQueue t3)) (length (pendingMatches t3)))]"
    using sv3 by (simp add: newEvents_def s'3 e3 e2 f1 emitQueueStats_def getQueueStats_def)
  show "(To (socketId (player1 m)), ?F) \<in> set (newEvents s s')"
    "(To (socketId (player2 m)), ?F) \<in> set (newEvents s s')"
    "(To (socketId (player1 m)), queue_joined (userId (player1 m)) (elo (player1 m)) now True)
            \<in> set (newEvents s s')"
    "(To (socketId (player2 m)), queue_joined (userId (player2 m)) (elo (player2 m)) now True)
            \<in> set (newEvents s s')"
    by (simp_all add: em)
  have d1: "(addPlayer now uid sock el True t1 = Inl err) = (addPlayer now uid sock el True s = Inl err)"
    "(\<exists>x. addPlayer now uid sock el True t1 = Inr x) = (\<exists>x. addPlayer now uid sock el True s = Inr x)"
    for uid sock el err
    by (rule addPlayer_same_decision; simp add: f1)+
  have d2: "(addPlayer now (userId (player2 m)) (socketId (player2 m)) el True t2 = Inl err)
        = (addPlayer now (userId (player2 m)) (socketId (player2 m)) el True t1 = Inl err)"
    "(\<exists>x. addPlayer now (userId (player2 m)) (socketId (player2 m)) el True t2 = Inr x)
        = (\<exists>x. addPlayer now (userId (player2 m)) (socketId (player2 m)) el True t1 = Inr x)"
    for el err
    by (rule addPlayer_same_decision;
        simp add: t2_def requeueAfterFailure_agree requeueAfterFailure_sockets
          ne[symmetric] nes[symmetric])+
  have q13: "map_of (activeQueue s') (userId (player1 m)) = map_of (activeQueue t2) (userId (player1 m))"
    using ne by (simp add: s'3 t3_def requeueAfterFailure_agree)
  have q21: "map_of (activeQueue t2) (userId (player2 m)) = map_of (activeQueue s) (userId (player2 m))"
    using ne by (simp add: t2_def requeueAfterFailure_agree f1)
  have el23: "set (errorLog t2) \<subseteq> set (errorLog s')"
    using requeueAfterFailure_errorLog[of t2 now "player2 m"]
    by (simp add: s'3 t3_def emitQueueStats_def)
  have ok1: "map_of (activeQueue s') (userId (player1 m)) =
             Some (createQueuedPlayer now (userId (player1 m)) (socketId (player1 m)) (elo (player1 m)) True)"
    if "addPlayer now (userId (player1 m)) (socketId (player1 m)) (elo (player1 m)) True s = Inr s1" for s1
  proof -
    from that d1(2) obtain x where
      "addPlayer now (userId (player1 m)) (socketId (player1 m)) (elo (player1 m)) True t1 = Inr x"
      by blast
    from requeueAfterFailure_outcome(1)[OF this] show ?thesis by (simp add: q13 t2_def)
  qed
  have ok2: "map_of (activeQueue s') (userId (player2 m)) =
             Some (createQueuedPlayer now (userId (player2 m)) (socketId (player2 m)) (elo (player2 m)) True)"
    if "addPlayer now (userId (player2 m)) (socketId (player2 m)) (elo (player2 m)) True s = Inr s1" for s1
  proof -
    from that d1(2) d2(2) obtain x where
      "addPlayer now (userId (player2 m)) (socketId (player2 m)) (elo (player2 m)) True t2 = Inr x"
      by blast
    from requeueAfterFailure_outcome(1)[OF this] show ?thesis by (simp add: s'3 t3_def)
  qed
  have no1: "FailedRequeue (userId (player1 m)) err \<in> set (errorLog s') \<and>
           map_of (activeQueue s') (userId (player1 m)) = map_of (activeQueue s) (userId (player1 m))"
    if "addPlayer now (userId (player1 m)) (socketId (player1 m)) (elo (player1 m)) True s = Inl err" for err
  proof -
    from that d1(1)
    have "addPlayer now (userId (player1 m)) (socketId (player1 m)) (elo (player1 m)) True t1 = Inl err"
      by blast
    from requeueAfterFailure_outcome(2)[OF this] el23 show ?thesis
      by (auto simp: q13 t2_def f1)
  qed
  have no2: "FailedRequeue (userId (player2 m)) err \<in> set (errorLog s') \<and>
           map_of (activeQueue s') (userId (player2 m)) = map_of (activeQueue s) (userId (player2 m))"
    if "addPlayer now (userId (player2 m)) (socketId (player2 m)) (elo (player2 m)) True s = Inl err" for err
  proof -
    from that d1(1) d2(1)
    have "addPlayer now (userId (player2 m)) (socketId (player2 m)) (elo (player2 m)) True t2 = Inl err"
      by blast
    from requeueAfterFailure_outcome(2)[OF this] q21 show ?thesis
      by (auto simp: s'3 t3_def emitQueueStats_def)
  qed
  show "\<And>p s1. p = player1 m \<or> p = player2 m \<Longrightarrow>
           addPlayer now (userId p) (socketId p) (elo p) True s = Inr s1 \<Longrightarrow>
           map_of (activeQueue s') (userId p) =
             Some (createQueuedPlayer now (userId p) (socketId p) (elo p) True)"
    using ok1 ok2 by blast
  show "\<And>p err. p = player1 m \<or> p = player2 m \<Longrightarrow>
           addPlayer now (userId p) (socketId p) (elo p) True s = Inl err \<Longrightarrow>
           FailedRequeue (userId p) err \<in> set (errorLog s') \<and>
           map_of (activeQueue s') (userId p) = map_of (activeQueue s) (userId p)"
    using no1 no2 by blast
qed

text \<open>
  Claim C7. Let the finalization of match \<open>mid\<close> be suspended at \<^verbatim>\<open>createGame\<close> (which is
  called only once both participants have accepted), in a reachable state with the socket
  server attached, and let the answer be \<open>{success: false, error, message}\<close>. Then the
  service sends \<open>match_failed\<close> with the match id, the reason \<open>game_creation_failed\<close>, the
  error code and the message to the sockets of both participants, and \<open>queue_joined\<close> with
  \<open>priority = true\<close> to each. Each participant is re-queued on its own account: if
  \<^verbatim>\<open>addPlayer\<close> accepts it in the state of the answer, it is in the waiting index
  afterwards with \<open>priority = true\<close>, and if \<^verbatim>\<open>addPlayer\<close> rejects it, the rejection is
  logged and its entry in the index is as before; neither outcome depends on what
  happened to the other participant.
\<close>

theorem game_creation_failure_notifies_and_requeues_both:
  assumes inv: "invariant s" and sv: "server s"
    and aw: "takeAwaiting mid (awaiting s) = Some (m, others)"
    and s': "s' = step e now (GameReply mid (GameFailed errorCode message)) s"
  shows "\<forall>p. p = player1 m \<or> p = player2 m \<longrightarrow>
        (To (socketId p), match_failed mid ''game_creation_failed'' errorCode message)
           \<in> set (newEvents s s')
      \<and> (To (socketId p), queue_joined (userId p) (elo p) now True) \<in> set (newEvents s s')
      \<and> (\<forall>s1. addPlayer now (userId p) (socketId p) (elo p) True s = Inr s1 \<longrightarrow>
             map_of (activeQueue s') (userId p) =
               Some (createQueuedPlayer now (userId p) (socketId p) (elo p) True))
      \<and> (\<forall>err. addPlayer now (userId p) (socketId p) (elo p) True s = Inl err \<longrightarrow>
             FailedRequeue (userId p) err \<in> set (errorLog s') \<and>
             map_of (activeQueue s') (userId p) = map_of (activeQueue s) (userId p))"
proof (intro allI impI)
  fix p
  assume p: "p = player1 m \<or> p = player2 m"
  note eff = failure_reply_effect[OF inv sv aw s']
  from p eff(1,2)
  have failed: "(To (socketId p), match_failed mid ''game_creation_failed'' errorCode message)
           \<in> set (newEvents s s')"
    by blast
  from p eff(3,4)
  have joined: "(To (socketId p), queue_joined (userId p) (elo p) now True) \<in> set (newEvents s s')"
    by blast
  from eff(5)[OF p]
  have requeued: "\<forall>s1. addPlayer now (userId p) (socketId p) (elo p) True s = Inr s1 \<longrightarrow>
             map_of (activeQueue s') (userId p) =
               Some (createQueuedPlayer now (userId p) (socketId p) (elo p) True)"
    by blast
  from eff(6)[OF p]
  have rejected: "\<forall>err. addPlayer now (userId p) (socketId p) (elo p) True s = Inl err \<longrightarrow>
             FailedRequeue (userId p) err \<in> set (errorLog s') \<and>
             map_of (activeQueue s') (userId p) = map_of (activeQueue s) (userId p)"
    by blast
  show "(To (socketId p), match_failed mid ''game_creation_failed'' errorCode message)
           \<in> set (newEvents s s')
      \<and> (To (socketId p), queue_joined (userId p) (elo p) now True) \<in> set (newEvents s s')
      \<and> (\<forall>s1. addPlayer now (userId p) (socketId p) (elo p) True s = Inr s1 \<longrightarrow>
             map_of (activeQueue s') (userId p) =
               Some (createQueuedPlayer now (userId p) (socketId p) (elo p) True))
      \<and> (\<forall>err. addPlayer now (userId p) (socketId p) (elo p) True s = Inl err \<longrightarrow>
             FailedRequeue (userId p) err \<in> set (errorLog s') \<and>
             map_of (activeQueue s') (userId p) = map_of (activeQueue s) (userId p))"
    by (rule conjI[OF failed conjI[OF joined conjI[OF requeued rejected]]])
qed

theorem game_creation_failure_notifies_and_requeues_both_witness:
  "invariant socketTakenAwaitingState \<and> server socketTakenAwaitingState
   \<and> (To ''sA'', match_failed ''m'' ''game_creation_failed'' ''INVALID_PLAYERS'' ''Invalid players'')
        \<in> set (newEvents socketTakenAwaitingState gameFailedState)
   \<and> (To ''sB'', match_failed ''m'' ''game_creation_failed'' ''INVALID_PLAYERS'' ''Invalid players'')
        \<in> set (newEvents socketTakenAwaitingState gameFailedState)
   \<and> (To ''sA'', queue_joined ''A'' 1500 3000 True) \<in> set (newEvents socketTakenAwaitingState gameFailedState)
   \<and> (To ''sB'', queue_joined ''B'' 1520 3000 True) \<in> set (newEvents socketTakenAwaitingState gameFailedState)
   \<and> FailedRequeue ''A'' SocketAlreadyActive \<in> set (errorLog gameFailedState)
   \<and> map_of (activeQueue gameFailedState) ''A'' = None
   \<and> map_of (activeQueue gameFailedState) ''B'' = Some (createQueuedPlayer 3000 ''B'' ''sB'' 1520 True)"
proof -
  let ?m = "\<lparr> matchId = ''m'', expiresAt = 16000,
             player1 = \<lparr> userId = ''A'', socketId = ''sA'', elo = 1500, status = ACCEPTED \<rparr>,
             player2 = \<lparr> userId = ''B'', socketId = ''sB'', elo = 1520, status = ACCEPTED \<rparr>,
             timeoutId = Some 0 \<rparr>"
  have "invariant proposedState"
    unfolding proposedState_def by (rule invariant_run[OF invariant_initState])
  then have inv: "invariant socketTakenAwaitingState"
    unfolding socketTakenAwaitingState_def bothAcceptedState_def acceptedOnceState_def
    by (intro invariant_step)
  have sv: "server socketTakenAwaitingState" by code_simp
  have aw: "takeAwaiting ''m'' (awaiting socketTakenAwaitingState) = Some (?m, [])" by code_simp
  have rejA: "addPlayer 3000 ''A'' ''sA'' 1500 True socketTakenAwaitingState = Inl SocketAlreadyActive"
    by code_simp
  have "getActivePenalty (penalties socketTakenAwaitingState) 3000 ''B'' = None"
    "map_of (activeQueue socketTakenAwaitingState) ''B'' = None"
    "''B'' \<notin> set (participants socketTakenAwaitingState)"
    "''sB'' \<notin> activeSockets socketTakenAwaitingState"
    by code_simp+
  then have okB: "addPlayer 3000 ''B'' ''sB'' 1520 True socketTakenAwaitingState =
      Inr (emitQueueStats (socketTakenAwaitingState
        \<lparr> activeQueue := AList.update ''B'' (createQueuedPlayer 3000 ''B'' ''sB'' 1520 True)
                           (activeQueue socketTakenAwaitingState),
           activeSockets := insert ''sB'' (activeSockets socketTakenAwaitingState) \<rparr>))"
    by (simp add: addPlayer_Inr_iff)
  have qA: "map_of (activeQueue socketTakenAwaitingState) ''A'' = None" by code_simp
  note c7 = game_creation_failure_notifies_and_requeues_both[OF inv sv aw gameFailedState_def]
  note a = c7[THEN spec, of "player1 ?m", THEN mp]
  note b = c7[THEN spec, of "player2 ?m", THEN mp]
  from a rejA qA have forA: "(To ''sA'', match_failed ''m'' ''game_creation_failed'' ''INVALID_PLAYERS'' ''Invalid players'')
        \<in> set (newEvents socketTakenAwaitingState gameFailedState)
      \<and> (To ''sA'', queue_joined ''A'' 1500 3000 True) \<in> set (newEvents socketTakenAwaitingState gameFailedState)
      \<and> FailedRequeue ''A'' SocketAlreadyActive \<in> set (errorLog gameFailedState)
      \<and> map_of (activeQueue gameFailedState) ''A'' = None"
    by simp
  from b okB have forB: "(To ''sB'', match_failed ''m'' ''game_creation_failed'' ''INVALID_PLAYERS'' ''Invalid players'')
        \<in> set (newEvents socketTakenAwaitingState gameFailedState)
      \<and> (To ''sB'', queue_joined ''B'' 1520 3000 True) \<in> set (newEvents socketTakenAwaitingState gameFailedState)
      \<and> map_of (activeQueue gameFailedState) ''B'' = Some (createQueuedPlayer 3000 ''B'' ''sB'' 1520 True)"
    by simp
  from inv sv forA forB show ?thesis by simp
qed

section \<open>A rejected re-queue\<close>

lemma addPlayer_rejected_absent:
  "addPlayer now uid sock el prio s = Inl err \<Longrightarrow>
   err = UserAlreadyInPendingMatch \<or> err = SocketAlreadyActive \<Longrightarrow>
   map_of (activeQueue s) uid = None"
  by (auto simp: addPlayer_def split: option.splits if_splits)

lemma cancelParticipant_agree:
  assumes "u \<noteq> userId p"
  shows "getActivePenalty (penalties (cancelParticipant e now mid faulty why p s)) now' u =
           getActivePenalty (penalties s) now' u"
proof (cases "userId p \<in> set faulty")
  case True
  with assms show ?thesis by (simp add: cancelParticipant_faulty getActivePenalty_other)
next
  case False
  then show ?thesis
    by (cases "addPlayer now (userId p) (socketId p) (elo p) True s")
       (simp_all add: cancelParticipant_rejected cancelParticipant_requeued addPlayer_frame)
qed

lemma cancelParticipant_sockets:
  assumes "sock \<noteq> socketId p"
  shows "sock \<in> activeSockets (cancelParticipant e now mid faulty why p s) \<longleftrightarrow> sock \<in> activeSockets s"
proof (cases "userId p \<in> set faulty")
  case True
  then show ?thesis by (simp add: cancelParticipant_faulty)
next
  case False
  with assms show ?thesis
    by (cases "addPlayer now (userId p) (socketId p) (elo p) True s")
       (simp_all add: cancelParticipant_rejected cancelParticipant_requeued addPlayer_emitted)
qed

lemma cancelParticipant_rejected_outcome:
  assumes "userId p \<notin> set faulty"
    and "addPlayer now (userId p) (socketId p) (elo p) True s = Inl err"
  shows "FailedRequeue (userId p) err \<in> set (errorLog (cancelParticipant e now mid faulty why p s))"
    and "activeQueue (cancelParticipant e now mid faulty why p s) = activeQueue s"
  by (simp_all add: cancelParticipant_rejected[OF assms])

lemma cancelMatch_rejected:
  assumes inv: "invariant s" and pm: "map_of (pendingMatches s) mid = Some m" and sv: "server s"
    and s': "s' = cancelMatch e now m faulty why s"
    and p: "p = player1 m \<or> p = player2 m" and innocent: "userId p \<notin> set faulty"
    and rej: "addPlayer now (userId p) (socketId p) (elo p) True
                (s\<lparr> pendingMatches := AList.delete mid (pendingMatches s) \<rparr>) = Inl err"
  shows "(To (socketId p), queue_joined (userId p) (elo p) now True) \<in> set (newEvents s s')"
    and "map_of (activeQueue s') (userId p) = None"
    and "FailedRequeue (userId p) err \<in> set (errorLog s')"
proof -
  from cancelMatch_effect(5)[OF inv pm sv s'] p innocent
  show "(To (socketId p), queue_joined (userId p) (elo p) now True) \<in> set (newEvents s s')"
    by blast
  from invariant_entry[OF inv pm]
  have wf: "match_wf (mid, m)" and ne: "userId (player1 m) \<noteq> userId (player2 m)"
    and nq: "userId (player1 m) \<notin> fst ` set (activeQueue s)" "userId (player2 m) \<notin> fst ` set (activeQueue s)"
    by blast+
  from wf have mid: "matchId m = mid" and nes: "socketId (player1 m) \<noteq> socketId (player2 m)"
    by (simp_all add: match_wf_def)
  define s2 where "s2 = (clearTimeout (timeoutId m) s)\<lparr> pendingMatches := AList.delete mid (pendingMatches s) \<rparr>"
  define s3 where "s3 = cancelParticipant e now mid faulty why (player1 m) s2"
  define s4 where "s4 = cancelParticipant e now mid faulty why (player2 m) s3"
  have s'4: "s' = emitQueueStats s4"
    by (simp add: s' cancelMatch_unfold mid s4_def s3_def s2_def)
  from nq have q2: "map_of (activeQueue s2) (userId (player1 m)) = None"
      "map_of (activeQueue s2) (userId (player2 m)) = None"
    by (simp_all add: s2_def map_of_eq_None_iff)
  have d2: "(addPlayer now uid sock el True s2 = Inl err) =
        (addPlayer now uid sock el True (s\<lparr> pendingMatches := AList.delete mid (pendingMatches s) \<rparr>) = Inl err)"
    for uid sock el
    by (rule addPlayer_same_decision; simp add: s2_def)
  have d3: "(addPlayer now (userId (player2 m)) (socketId (player2 m)) el True s3 = Inl err)
        = (addPlayer now (userId (player2 m)) (socketId (player2 m)) el True s2 = Inl err)" for el
    by (rule addPlayer_same_decision;
        simp add: s3_def cancelParticipant_agree cancelParticipant_keeps cancelParticipant_sockets
          ne[symmetric] nes[symmetric])
  have q1: "map_of (activeQueue s') (userId (player1 m)) = map_of (activeQueue s3) (userId (player1 m))"
    using ne by (simp add: s'4 s4_def cancelParticipant_keeps)
  have q3: "map_of (activeQueue s3) (userId (player2 m)) = None"
    using ne q2 by (simp add: s3_def cancelParticipant_keeps)
  have el: "set (errorLog s3) \<subseteq> set (errorLog s')"
    using cancelParticipant_errorLog[of s3 e now mid faulty why "player2 m"]
    by (simp add: s'4 s4_def emitQueueStats_def)
  from p have "map_of (activeQueue s') (userId p) = None \<and> FailedRequeue (userId p) err \<in> set (errorLog s')"
  proof
    assume p1: "p = player1 m"
    from rej d2 have "addPlayer now (userId p) (socketId p) (elo p) True s2 = Inl err" by blast
    from cancelParticipant_rejected_outcome[OF innocent this, of e mid why] el q1 q2(1)
    show ?thesis by (auto simp: p1 s3_def)
  next
    assume p2: "p = player2 m"
    from rej d2 d3 have "addPlayer now (userId p) (socketId p) (elo p) True s3 = Inl err"
      by (simp add: p2)
    from cancelParticipant_rejected_outcome[OF innocent this, of e mid why] q3
    show ?thesis by (simp add: p2 s'4 s4_def emitQueueStats_def)
  qed
  then show "map_of (activeQueue s') (userId p) = None"
    and "FailedRequeue (userId p) err \<in> set (errorLog s')"
    by simp_all
qed

text \<open>
  Claim C10. In a reachable state with the socket server attached, both re-queue paths
  send \<open>queue_joined\<close> with \<open>priority = true\<close> to a participant whose \<^verbatim>\<open>addPlayer\<close> is
  rejected. On a cancel, a non-faulty participant of the match whose \<^verbatim>\<open>addPlayer\<close> is
  rejected once the match is removed receives the event, the rejection is only logged,
  and the participant is not in the waiting index. On a failed game creation, a
  participant whose \<^verbatim>\<open>addPlayer\<close> is rejected receives the event, the rejection is only
  logged, and its entry in the waiting index is as before; it is absent from the index
  when the rejection is for a pending match or for a socket in use.
\<close>

theorem queue_joined_sent_although_requeue_rejected:
  assumes inv: "invariant s" and sv: "server s"
  shows "(\<forall>mid m faulty why p err s'.
            map_of (pendingMatches s) mid = Some m \<and> (p = player1 m \<or> p = player2 m)
            \<and> userId p \<notin> set faulty
            \<and> addPlayer now (userId p) (socketId p) (elo p) True
                (s\<lparr> pendingMatches := AList.delete mid (pendingMatches s) \<rparr>) = Inl err
            \<and> s' = cancelMatch e now m faulty why s \<longrightarrow>
              (To (socketId p), queue_joined (userId p) (elo p) now True) \<in> set (newEvents s s')
            \<and> map_of (activeQueue s') (userId p) = None
            \<and> FailedRequeue (userId p) err \<in> set (errorLog s'))
       \<and> (\<forall>mid m others errorCode message p err s'.
            takeAwaiting mid (awaiting s) = Some (m, others) \<and> (p = player1 m \<or> p = player2 m)
            \<and> addPlayer now (userId p) (socketId p) (elo p) True s = Inl err
            \<and> s' = step e now (GameReply mid (GameFailed errorCode message)) s \<longrightarrow>
              (To (socketId p), queue_joined (userId p) (elo p) now True) \<in> set (newEvents s s')
            \<and> map_of (activeQueue s') (userId p) = map_of (activeQueue s) (userId p)
            \<and> (err = UserAlreadyInPendingMatch \<or> err = SocketAlreadyActive \<longrightarrow>
                  map_of (activeQueue s') (userId p) = None)
            \<and> FailedRequeue (userId p) err \<in> set (errorLog s'))"
proof (intro conjI allI impI; elim conjE)
  fix mid m faulty why p err s'
  assume "map_of (pendingMatches s) mid = Some m" "p = player1 m \<or> p = player2 m"
    "userId p \<notin> set faulty"
    "addPlayer now (userId p) (socketId p) (elo p) True
                (s\<lparr> pendingMatches := AList.delete mid (pendingMatches s) \<rparr>) = Inl err"
    "s' = cancelMatch e now m faulty why s"
  from cancelMatch_rejected[OF inv this(1) sv this(5,2,3,4)]
  show "(To (socketId p), queue_joined (userId p) (elo p) now True) \<in> set (newEvents s s')"
    "map_of (activeQueue s') (userId p) = None"
    "FailedRequeue (userId p) err \<in> set (errorLog s')"
    by blast+
next
  fix mid m others errorCode message p err s'
  assume aw: "takeAwaiting mid (awaiting s) = Some (m, others)" and p: "p = player1 m \<or> p = player2 m"
    and rej: "addPlayer now (userId p) (socketId p) (elo p) True s = Inl err"
    and s': "s' = step e now (GameReply mid (GameFailed errorCode message)) s"
  note eff = failure_reply_effect[OF inv sv aw s']
  from p eff(3,4)
  show "(To (socketId p), queue_joined (userId p) (elo p) now True) \<in> set (newEvents s s')"
    by blast
  from eff(6)[OF p rej]
  show same: "map_of (activeQueue s') (userId p) = map_of (activeQueue s) (userId p)"
    and "FailedRequeue (userId p) err \<in> set (errorLog s')"
    by blast+
  show "map_of (activeQueue s') (userId p) = None"
    if "err = UserAlreadyInPendingMatch \<or> err = SocketAlreadyActive"
    using addPlayer_rejected_absent[OF rej that] same by simp
qed

theorem queue_joined_sent_although_requeue_rejected_witness:
  "(To ''sA'', queue_joined ''A'' 1500 2000 True) \<in> set (newEvents socketTakenState requeueRejectedState)
   \<and> map_of (activeQueue requeueRejectedState) ''A'' = None
   \<and> map fst (activeQueue requeueRejectedState) = [''C'']
   \<and> FailedRequeue ''A'' SocketAlreadyActive \<in> set (errorLog requeueRejectedState)
   \<and> (To ''sA'', queue_joined ''A'' 1500 3000 True) \<in> set (newEvents socketTakenAwaitingState gameFailedState)
   \<and> map_of (activeQueue gameFailedState) ''A'' = None
   \<and> FailedRequeue ''A'' SocketAlreadyActive \<in> set (errorLog gameFailedState)"
proof -
  let ?m = "\<lparr> matchId = ''m'', expiresAt = 16000,
             player1 = \<lparr> userId = ''A'', socketId = ''sA'', elo = 1500, status = PENDING \<rparr>,
             player2 = \<lparr> userId = ''B'', socketId = ''sB'', elo = 1520, status = PENDING \<rparr>,
             timeoutId = Some 0 \<rparr>"
  let ?m' = "\<lparr> matchId = ''m'', expiresAt = 16000,
             player1 = \<lparr> userId = ''A'', socketId = ''sA'', elo = 1500, status = ACCEPTED \<rparr>,
             player2 = \<lparr> userId = ''B'', socketId = ''sB'', elo = 1520, status = ACCEPTED \<rparr>,
             timeoutId = Some 0 \<rparr>"
  have inv0: "invariant proposedState"
    unfolding proposedState_def by (rule invariant_run[OF invariant_initState])
  then have inv1: "invariant socketTakenState"
    unfolding socketTakenState_def by (intro invariant_step)
  from inv0 have inv2: "invariant socketTakenAwaitingState"
    unfolding socketTakenAwaitingState_def bothAcceptedState_def acceptedOnceState_def
    by (intro invariant_step)
  have sv1: "server socketTakenState" and sv2: "server socketTakenAwaitingState" by code_simp+
  have pm: "map_of (pendingMatches socketTakenState) ''m'' = Some ?m" by code_simp
  have rej1: "addPlayer 2000 ''A'' ''sA'' 1500 True
      (socketTakenState\<lparr> pendingMatches := AList.delete ''m'' (pendingMatches socketTakenState) \<rparr>)
      = Inl SocketAlreadyActive"
    by code_simp
  have s1: "requeueRejectedState = cancelMatch exampleEnv 2000 ?m [''B''] ''declined'' socketTakenState"
    by (simp add: requeueRejectedState_def declineMatch_def pm after_simps)
  have aw: "takeAwaiting ''m'' (awaiting socketTakenAwaitingState) = Some (?m', [])" by code_simp
  have rej2: "addPlayer 3000 ''A'' ''sA'' 1500 True socketTakenAwaitingState = Inl SocketAlreadyActive"
    by code_simp
  have rest: "map fst (activeQueue requeueRejectedState) = [''C'']" by code_simp
  note cancel = queue_joined_sent_although_requeue_rejected[OF inv1 sv1, of 2000 exampleEnv,
      THEN conjunct1, THEN spec[of _ "''m''"], THEN spec[of _ ?m], THEN spec[of _ "[''B'']"],
      THEN spec[of _ "''declined''"], THEN spec[of _ "player1 ?m"],
      THEN spec[of _ SocketAlreadyActive], THEN spec[of _ requeueRejectedState]]
  note failed = queue_joined_sent_although_requeue_rejected[OF inv2 sv2, of 3000 exampleEnv,
      THEN conjunct2, THEN spec[of _ "''m''"], THEN spec[of _ ?m'], THEN spec[of _ "[]"],
      THEN spec[of _ "''INVALID_PLAYERS''"], THEN spec[of _ "''Invalid players''"],
      THEN spec[of _ "player1 ?m'"], THEN spec[of _ SocketAlreadyActive],
      THEN spec[of _ gameFailedState]]
  have hyp1: "map_of (pendingMatches socketTakenState) ''m'' = Some ?m
      \<and> (player1 ?m = player1 ?m \<or> player1 ?m = player2 ?m)
      \<and> userId (player1 ?m) \<notin> set [''B'']
      \<and> addPlayer 2000 (userId (player1 ?m)) (socketId (player1 ?m)) (elo (player1 ?m)) True
           (socketTakenState\<lparr> pendingMatches := AList.delete ''m'' (pendingMatches socketTakenState) \<rparr>)
           = Inl SocketAlreadyActive
      \<and> requeueRejectedState = cancelMatch exampleEnv 2000 ?m [''B''] ''declined'' socketTakenState"
    using pm rej1 s1 by simp
  have hyp2: "takeAwaiting ''m'' (awaiting socketTakenAwaitingState) = Some (?m', [])
      \<and> (player1 ?m' = player1 ?m' \<or> player1 ?m' = player2 ?m')
      \<and> addPlayer 3000 (userId (player1 ?m')) (socketId (player1 ?m')) (elo (player1 ?m')) True
           socketTakenAwaitingState = Inl SocketAlreadyActive
      \<and> gameFailedState =
           step exampleEnv 3000 (GameReply ''m'' (GameFailed ''INVALID_PLAYERS'' ''Invalid players''))
             socketTakenAwaitingState"
    using aw rej2 by (simp add: gameFailedState_def)
  from cancel[THEN mp, OF hyp1]
  have one: "(To ''sA'', queue_joined ''A'' 1500 2000 True) \<in> set (newEvents socketTakenState requeueRejectedState)
      \<and> map_of (activeQueue requeueRejectedState) ''A'' = None
      \<and> FailedRequeue ''A'' SocketAlreadyActive \<in> set (errorLog requeueRejectedState)"
    by simp
  from failed[THEN mp, OF hyp2]
  have two: "(To ''sA'', queue_joined ''A'' 1500 3000 True) \<in> set (newEvents socketTakenAwaitingState gameFailedState)
      \<and> map_of (activeQueue gameFailedState) ''A'' = None
      \<and> FailedRequeue ''A'' SocketAlreadyActive \<in> set (errorLog gameFailedState)"
    by auto
  from one two rest show ?thesis by simp
qed

section \<open>An exception during a tick\<close>

lemma andThen_simps [simp]:
  "andThen (Completed s) f = f s" "andThen (Uncaught s) f = Uncaught s"
  by (simp_all add: andThen_def)










lemma errorLog_handleMatchFound [simp]:
  "errorLog (handleMatchFound e now p1 p2 s) = errorLog s"
  by (simp add: handleMatchFound_def Let_def emitQueueStats_def emitTo_def)

lemma errorLog_storePlayer [simp]: "errorLog (storePlayer p s) = errorLog s"
  by (simp add: storePlayer_def)

lemma errorLog_pairCandidates [simp]:
  "errorLog (pairCandidates e now cs matchedIds s) = errorLog s"
  by (induction cs arbitrary: matchedIds s) (auto simp: Let_def split: option.splits)












section \<open>Identifiers stay apart\<close>

lemma ids_apart_frame:
  assumes "activeQueue s' = activeQueue s" "pendingMatches s' = pendingMatches s"
    "awaiting s' = awaiting s"
  shows "ids_apart U s' = ids_apart U s"
  using assms by (simp add: ids_apart_def)

lemma ids_apart_emit [simp]:
  "ids_apart U (emitQueueStats s) = ids_apart U s"
  "ids_apart U (emitTo sock ev s) = ids_apart U s"
  by (rule ids_apart_frame; simp)+

lemma ids_apart_initState: "ids_apart U initState"
  by (simp add: ids_apart_def initState_def)

lemma ids_apart_addPlayer:
  assumes "addPlayer now uid sock el prio s = Inr s'" "ids_apart U s" "uid \<in> U" "sock \<notin> U"
  shows "ids_apart U s'"
proof -
  from assms(1) have s': "s' = emitQueueStats
            (s\<lparr> activeQueue := AList.update uid (createQueuedPlayer now uid sock el prio) (activeQueue s),
                 activeSockets := insert sock (activeSockets s) \<rparr>)"
    by (simp add: addPlayer_Inr_iff)
  have "ids_ok U (createQueuedPlayer now uid sock el prio)"
    using assms(3,4) by (simp add: ids_ok_def createQueuedPlayer_def)
  with assms(2) show ?thesis
    by (simp add: s' ids_apart_def list_all_update)
qed

lemma ids_apart_removePlayer: "ids_apart U s \<Longrightarrow> ids_apart U (removePlayer x s)"
  by (auto simp: removePlayer_def Let_def ids_apart_def list_all_delete split: option.splits)

lemma ids_apart_cancelParticipant:
  assumes "ids_apart U s" "ids_ok U p"
  shows "ids_apart U (cancelParticipant e now mid faulty why p s)"
proof (cases "userId p \<in> set faulty")
  case True
  have "ids_apart U (cancelParticipant e now mid faulty why p s) = ids_apart U s"
    by (rule ids_apart_frame) (simp_all add: cancelParticipant_faulty[OF True] cancelParticipant_def Let_def True)
  with assms show ?thesis by simp
next
  case False
  show ?thesis
  proof (cases "addPlayer now (userId p) (socketId p) (elo p) True s")
    case (Inl err)
    have "ids_apart U (s\<lparr> errorLog := errorLog s @ [FailedRequeue (userId p) err] \<rparr>) = ids_apart U s"
      by (rule ids_apart_frame) simp_all
    with assms show ?thesis by (simp add: cancelParticipant_rejected[OF False Inl])
  next
    case (Inr s1)
    from ids_apart_addPlayer[OF Inr assms(1)] assms(2) have "ids_apart U s1"
      by (simp add: ids_ok_def)
    then show ?thesis by (simp add: cancelParticipant_requeued[OF False Inr])
  qed
qed

lemma ids_apart_requeueAfterFailure:
  assumes "ids_apart U s" "ids_ok U p"
  shows "ids_apart U (requeueAfterFailure now p s)"
proof (cases "addPlayer now (userId p) (socketId p) (elo p) True s")
  case (Inl err)
  have "ids_apart U (s\<lparr> errorLog := errorLog s @ [FailedRequeue (userId p) err] \<rparr>) = ids_apart U s"
    by (rule ids_apart_frame) simp_all
  with assms show ?thesis by (simp add: requeueAfterFailure_rejected[OF Inl])
next
  case (Inr s1)
  from ids_apart_addPlayer[OF Inr assms(1)] assms(2) have "ids_apart U s1"
    by (simp add: ids_ok_def)
  then show ?thesis by (simp add: requeueAfterFailure_requeued[OF Inr])
qed

lemma ids_apart_entry:
  assumes "ids_apart U s" "map_of (pendingMatches s) mid = Some m"
  shows "ids_ok U (player1 m)" "ids_ok U (player2 m)"
  using assms map_of_SomeD[OF assms(2)] by (auto simp: ids_apart_def list_all_iff)

lemma ids_apart_cancelMatch:
  assumes "ids_apart U s" "ids_ok U (player1 m)" "ids_ok U (player2 m)"
  shows "ids_apart U (cancelMatch e now m faulty why s)"
proof -
  let ?s2 = "(clearTimeout (timeoutId m) s)\<lparr> pendingMatches := AList.delete (matchId m) (pendingMatches s) \<rparr>"
  have "ids_apart U ?s2"
    using assms(1) by (simp add: ids_apart_def list_all_delete)
  then show ?thesis
    by (simp add: cancelMatch_unfold ids_apart_cancelParticipant assms(2,3))
qed

lemma ids_apart_declineMatch:
  "ids_apart U s \<Longrightarrow> ids_apart U (after (declineMatch e now uid mid s) s)"
  by (auto simp: declineMatch_def after_simps ids_apart_cancelMatch ids_apart_entry
      split: option.splits)

lemma ids_apart_timers [simp]: "ids_apart U (s\<lparr> timers := x \<rparr>) = ids_apart U s"
  by (rule ids_apart_frame) simp_all

lemma ids_apart_handleMatchTimeout:
  "ids_apart U s \<Longrightarrow> ids_apart U (handleMatchTimeout e now mid s)"
  by (auto simp: handleMatchTimeout_def Let_def ids_apart_cancelMatch ids_apart_entry
      split: option.splits)

lemma ids_apart_acceptAs:
  assumes "ids_apart U s" "ids_ok U (player1 m)" "ids_ok U (player2 m)"
  shows "ids_apart U (acceptAs e now mid m first s)"
proof -
  have upd: "ids_apart U (s\<lparr> pendingMatches := AList.update mid m' (pendingMatches s) \<rparr>)"
    if "ids_ok U (player1 m')" "ids_ok U (player2 m')" for m'
    using assms(1) that by (simp add: ids_apart_def list_all_update)
  have fin: "ids_apart U (finalizeMatch_begin e now m' (s\<lparr> pendingMatches := AList.update mid m' (pendingMatches s) \<rparr>))"
    if "ids_ok U (player1 m')" "ids_ok U (player2 m')" for m'
    using upd[OF that] that by (simp add: ids_apart_def list_all_delete)
  have ok1: "ids_ok U (player1 (m\<lparr> player1 := (player1 m)\<lparr> status := ACCEPTED \<rparr> \<rparr>))"
    "ids_ok U (player2 (m\<lparr> player1 := (player1 m)\<lparr> status := ACCEPTED \<rparr> \<rparr>))"
    "ids_ok U (player1 (m\<lparr> player2 := (player2 m)\<lparr> status := ACCEPTED \<rparr> \<rparr>))"
    "ids_ok U (player2 (m\<lparr> player2 := (player2 m)\<lparr> status := ACCEPTED \<rparr> \<rparr>))"
    using assms(2,3) by (simp_all add: ids_ok_def)
  show ?thesis
    using assms(1) upd[OF ok1(1,2)] upd[OF ok1(3,4)] fin[OF ok1(1,2)] fin[OF ok1(3,4)]
    by (cases first) (simp_all add: acceptAs_def Let_def)
qed

lemma ids_apart_acceptMatch:
  "ids_apart U s \<Longrightarrow> ids_apart U (after (acceptMatch e now uid mid s) s)"
  by (auto simp: acceptMatch_def after_simps ids_apart_acceptAs ids_apart_entry
      split: option.splits)

lemma ids_apart_finalizeMatch_resume:
  assumes "ids_apart U s" "ids_ok U (player1 m)" "ids_ok U (player2 m)"
  shows "ids_apart U (finalizeMatch_resume now m reply s)"
  using assms
  by (cases reply)
     (simp_all add: finalizeMatch_resume_def handleGameCreationSuccess_def
        handleGameCreationFailure_def Let_def ids_apart_requeueAfterFailure)

lemma ids_apart_storePlayer:
  assumes "ids_apart U s" "ids_ok U p"
  shows "ids_apart U (storePlayer p s)"
  using assms by (auto simp: ids_apart_def storePlayer_def list_all_iff split: if_splits)

lemma ids_apart_handleMatchFound:
  assumes "ids_apart U s" "ids_ok U p1" "ids_ok U p2"
  shows "ids_apart U (handleMatchFound e now p1 p2 s)"
  using assms
  by (simp add: ids_apart_def list_all_delete list_all_update ids_ok_def)

lemma ids_apart_pairCandidates:
  assumes "ids_apart U s" "list_all (ids_ok U) cs"
  shows "ids_apart U (pairCandidates e now cs matchedIds s)"
  using assms
proof (induction cs arbitrary: matchedIds s)
  case Nil
  then show ?case by simp
next
  case (Cons c rest)
  from Cons.prems have c: "ids_ok U c" and rest: "list_all (ids_ok U) rest" by simp_all
  let ?A = "expandRange e now c"
  have A: "ids_ok U ?A" using c by (simp add: ids_ok_def)
  have s1: "ids_apart U (storePlayer ?A s)" using Cons.prems(1) A by (rule ids_apart_storePlayer)
  show ?case
  proof (cases "userId c \<in> matchedIds")
    case True
    with Cons.IH[OF Cons.prems(1) rest] show ?thesis by simp
  next
    case False
    show ?thesis
    proof (cases "findOpponent e ?A (BASE_TOLERANCE e * rangeFactor ?A * (if priority ?A then 2 else 1))
                    matchedIds rest")
      case None
      with False Cons.IH[OF s1 rest] show ?thesis by (simp add: Let_def)
    next
      case (Some B)
      from findOpponent_Some(1)[OF Some] rest have "ids_ok U B" by (simp add: list_all_iff)
      from ids_apart_handleMatchFound[OF s1 A this]
      have "ids_apart U (handleMatchFound e now ?A B (storePlayer ?A s))" .
      from Cons.IH[OF this rest] False Some show ?thesis by (simp add: Let_def)
    qed
  qed
qed

lemma ids_apart_matchmakingLoop:
  assumes "ids_apart U s"
  shows "ids_apart U (matchmakingLoop e now s)"
proof -
  from assms have "list_all (ids_ok U) (candidates s)"
    by (auto simp: candidates_def ids_apart_def list_all_iff)
  from ids_apart_pairCandidates[OF assms this] assms show ?thesis
    by (simp add: matchmakingLoop_def)
qed

lemma ids_apart_step:
  assumes "ids_apart U s" "from_gateway U a"
  shows "ids_apart U (step e now a s)"
proof (cases a)
  case (AddPlayer uid sock el prio)
  with assms show ?thesis
    by (cases "addPlayer now uid sock el prio s") (auto simp: after_simps intro: ids_apart_addPlayer)
next
  case (RemovePlayer x)
  with assms show ?thesis by (simp add: ids_apart_removePlayer)
next
  case Tick
  with assms show ?thesis by (simp add: ids_apart_matchmakingLoop)
next
  case (Accept uid mid)
  with assms show ?thesis by (simp add: ids_apart_acceptMatch)
next
  case (Decline uid mid)
  with assms show ?thesis by (simp add: ids_apart_declineMatch)
next
  case (TimeoutFires tid)
  with assms show ?thesis by (simp add: ids_apart_handleMatchTimeout split: option.splits)
next
  case (GameReply mid reply)
  show ?thesis
  proof (cases "takeAwaiting mid (awaiting s)")
    case None
    with GameReply assms show ?thesis by simp
  next
    case (Some r)
    obtain m others where r: "r = (m, others)" by (cases r)
    from takeAwaiting_subset[OF Some[unfolded r]] assms(1)
    have m: "ids_ok U (player1 m)" "ids_ok U (player2 m)"
      and o: "ids_apart U (s\<lparr> awaiting := others \<rparr>)"
      by (auto simp: ids_apart_def list_all_iff)
    from ids_apart_finalizeMatch_resume[OF o m] GameReply Some r show ?thesis by simp
  qed
qed

lemma ids_apart_run:
  "ids_apart U s \<Longrightarrow> list_all (\<lambda>(now, a). from_gateway U a) evs \<Longrightarrow> ids_apart U (run e evs s)"
  by (induction evs arbitrary: s) (auto simp: ids_apart_step)

text \<open>With the identifiers apart, no identifier is the user id of one waiting player
  and the socket id of another.\<close>

lemma ids_apart_not_ambiguous:
  assumes "queue_wf s" "ids_apart U s"
  shows "\<not> ambiguous s x"
proof
  assume "ambiguous s x"
  then obtain p k q where p: "map_of (activeQueue s) x = Some p"
    and q: "(k, q) \<in> set (activeQueue s)" "socketId q = x"
    by (auto simp: ambiguous_def list_ex_iff)
  from map_of_SomeD[OF p] assms have "userId p = x" "ids_ok U p"
    by (auto simp: queue_wf_def ids_apart_def list_all_iff)
  moreover from q assms(2) have "ids_ok U q" by (auto simp: ids_apart_def list_all_iff)
  ultimately show False using q(2) by (simp add: ids_ok_def)
qed

lemma add_remove_add_not_queued:
  assumes "addPlayer now uid sock e prio s = Inr s1"
    and "addPlayer now' uid sock' e' prio' (removePlayer uid s1) = Inl err"
  shows "\<not> AlreadyQueued err"
proof -
  from assms(1) have a: "uid \<notin> set (participants s)"
     and s1: "s1 = emitQueueStats
            (s\<lparr> activeQueue := AList.update uid (createQueuedPlayer now uid sock e prio) (activeQueue s),
                 activeSockets := insert sock (activeSockets s) \<rparr>)"
    by (simp_all add: addPlayer_Inr_iff)
  have q: "map_of (activeQueue s1) uid = Some (createQueuedPlayer now uid sock e prio)"
    by (simp add: s1 AList.update_conv')
  have r: "removePlayer uid s1 = emitQueueStats (s1\<lparr> activeSockets := activeSockets s1 - {sock},
              activeQueue := AList.delete uid (activeQueue s1) \<rparr>)"
    using q by (simp add: removePlayer_def createQueuedPlayer_def)
  have "map_of (activeQueue (removePlayer uid s1)) uid = None"
    by (simp add: r AList.delete_conv')
  moreover have "\<not> isUserInPendingMatch (removePlayer uid s1) uid"
  proof -
    have "pendingMatches (removePlayer uid s1) = pendingMatches s1" by (simp add: r)
    also have "\<dots> = pendingMatches s" by (simp add: s1)
    finally show ?thesis using a by (simp add: isUserInPendingMatch_iff participants_def)
  qed
  ultimately show ?thesis
    using assms(2) by (auto simp: addPlayer_def AlreadyQueued_def split: option.splits if_splits)
qed

text \<open>
  Claim C8. In a well-formed state whose players have their identifiers apart (as in
  every state the service reaches when \<^verbatim>\<open>addPlayer\<close> is called the way the gateway calls
  it), \<^verbatim>\<open>removePlayer\<close> never touches the pending matches; given the user id or the socket
  id of a waiting player it removes exactly that player from both waiting indices; given
  any other identifier it changes nothing; and it is idempotent. After a successful
  \<^verbatim>\<open>addPlayer(u)\<close> and \<^verbatim>\<open>removePlayer(u)\<close>, no \<^verbatim>\<open>addPlayer(u)\<close> fails with \<open>AlreadyQueued\<close>,
  and the same \<^verbatim>\<open>addPlayer(u)\<close>, no earlier in time, succeeds.
\<close>

theorem removePlayer_resolves_and_is_idempotent:
  assumes wf: "queue_wf s" and ids: "ids_apart U s"
  shows "pendingMatches (removePlayer x s) = pendingMatches s
   \<and> (\<forall>u p. (u, p) \<in> set (activeQueue s) \<and> (x = u \<or> x = socketId p) \<longrightarrow>
        activeQueue (removePlayer x s) = AList.delete u (activeQueue s) \<and>
        activeSockets (removePlayer x s) = activeSockets s - {socketId p} \<and>
        u \<notin> fst ` set (activeQueue (removePlayer x s)) \<and>
        socketId p \<notin> activeSockets (removePlayer x s))
   \<and> (list_all (\<lambda>(u, p). x \<noteq> u \<and> x \<noteq> socketId p) (activeQueue s) \<longrightarrow> removePlayer x s = s)
   \<and> removePlayer x (removePlayer x s) = removePlayer x s
   \<and> (\<forall>now sock e prio s1. addPlayer now x sock e prio s = Inr s1 \<longrightarrow>
        (\<forall>now' sock' e' prio' err.
            addPlayer now' x sock' e' prio' (removePlayer x s1) = Inl err \<longrightarrow> \<not> AlreadyQueued err)
      \<and> (\<forall>now' e' prio'. now \<le> now' \<longrightarrow>
            (\<exists>s3. addPlayer now' x sock e' prio' (removePlayer x s1) = Inr s3)))"
proof -
  have d: "distinct (map fst (activeQueue s))" using wf by (simp add: queue_wf_def)
  have 1: "pendingMatches (removePlayer x s) = pendingMatches s"
    by (simp add: removePlayer_def Let_def split: option.splits)
  have 2: "\<forall>u p. (u, p) \<in> set (activeQueue s) \<and> (x = u \<or> x = socketId p) \<longrightarrow>
        activeQueue (removePlayer x s) = AList.delete u (activeQueue s) \<and>
        activeSockets (removePlayer x s) = activeSockets s - {socketId p} \<and>
        u \<notin> fst ` set (activeQueue (removePlayer x s)) \<and>
        socketId p \<notin> activeSockets (removePlayer x s)"
  proof (intro allI impI, elim conjE)
    fix u p
    assume mem: "(u, p) \<in> set (activeQueue s)" and x: "x = u \<or> x = socketId p"
    from x have "owner s x = Some (u, p)"
    proof
      assume "x = u"
      with owner_by_userId[OF d mem] show ?thesis by simp
    next
      assume xs: "x = socketId p"
      from mem ids have "socketId p \<notin> U" by (auto simp: ids_apart_def ids_ok_def list_all_iff)
      moreover have "k \<in> U" if "k \<in> fst ` set (activeQueue s)" for k
      proof -
        from that obtain q where "(k, q) \<in> set (activeQueue s)" by auto
        with wf ids show ?thesis
          by (auto simp: queue_wf_def ids_apart_def ids_ok_def list_all_iff)
      qed
      ultimately have "socketId p \<notin> fst ` set (activeQueue s)" by blast
      with owner_by_socketId[OF wf mem] xs show ?thesis by simp
    qed
    from removePlayer_effect[OF wf this]
    show "activeQueue (removePlayer x s) = AList.delete u (activeQueue s) \<and>
        activeSockets (removePlayer x s) = activeSockets s - {socketId p} \<and>
        u \<notin> fst ` set (activeQueue (removePlayer x s)) \<and>
        socketId p \<notin> activeSockets (removePlayer x s)"
      by simp
  qed
  have 3: "list_all (\<lambda>(u, p). x \<noteq> u \<and> x \<noteq> socketId p) (activeQueue s) \<longrightarrow> removePlayer x s = s"
  proof
    assume "list_all (\<lambda>(u, p). x \<noteq> u \<and> x \<noteq> socketId p) (activeQueue s)"
    from owner_None[OF this] d show "removePlayer x s = s" by (simp add: removePlayer_owner)
  qed
  have 4: "removePlayer x (removePlayer x s) = removePlayer x s"
    using wf ids_apart_not_ambiguous[OF wf ids] by (rule removePlayer_twice)
  have 5: "\<forall>now sock e prio s1. addPlayer now x sock e prio s = Inr s1 \<longrightarrow>
        (\<forall>now' sock' e' prio' err.
            addPlayer now' x sock' e' prio' (removePlayer x s1) = Inl err \<longrightarrow> \<not> AlreadyQueued err)
      \<and> (\<forall>now' e' prio'. now \<le> now' \<longrightarrow>
            (\<exists>s3. addPlayer now' x sock e' prio' (removePlayer x s1) = Inr s3))"
  proof (intro allI impI conjI)
    fix now sock e prio s1 now' sock' e' prio' err
    assume "addPlayer now x sock e prio s = Inr s1"
      "addPlayer now' x sock' e' prio' (removePlayer x s1) = Inl err"
    then show "\<not> AlreadyQueued err" by (rule add_remove_add_not_queued)
  next
    fix now sock e prio s1 now' e' prio'
    assume "addPlayer now x sock e prio s = Inr s1" "now \<le> now'"
    then show "\<exists>s3. addPlayer now' x sock e' prio' (removePlayer x s1) = Inr s3"
      by (rule add_remove_add)
  qed
  show ?thesis by (rule conjI[OF 1 conjI[OF 2 conjI[OF 3 conjI[OF 4 5]]]])
qed

theorem removePlayer_resolves_and_is_idempotent_witness:
  "queue_wf declinedState \<and> ids_apart {''A'', ''B''} declinedState
   \<and> removePlayer ''sA'' (removePlayer ''sA'' declinedState) = removePlayer ''sA'' declinedState
   \<and> activeQueue (removePlayer ''sA'' declinedState) = []
   \<and> activeSockets (removePlayer ''sA'' declinedState) = {}
   \<and> pendingMatches (removePlayer ''sA'' declinedState) = pendingMatches declinedState
   \<and> \<not> isl (addPlayer 5 ''C'' ''sC'' 1500 False
          (removePlayer ''C'' (after (addPlayer 0 ''C'' ''sC'' 1400 False initState) initState)))"
proof -
  have wf: "queue_wf declinedState" by code_simp
  have ids: "ids_apart {''A'', ''B''} declinedState"
    unfolding declinedState_def by (rule ids_apart_run[OF ids_apart_initState]) simp
  have q: "activeQueue declinedState = [(''A'', \<lparr> userId = ''A'', socketId = ''sA'', elo = 1500,
      joinTime = 2000, rangeFactor = 1, priority = True \<rparr>)]"
    "activeSockets declinedState = {''sA''}"
    by code_simp+
  have wf0: "queue_wf initState" by code_simp
  have a0: "addPlayer 0 ''C'' ''sC'' 1400 False initState =
      Inr (after (addPlayer 0 ''C'' ''sC'' 1400 False initState) initState)"
    by (simp add: addPlayer_def initState_def getActivePenalty_def isUserInPendingMatch_def after_simps)
  note t = removePlayer_resolves_and_is_idempotent[OF wf ids, of "''sA''"]
  from t have idem:
    "removePlayer ''sA'' (removePlayer ''sA'' declinedState) = removePlayer ''sA'' declinedState"
    by blast
  from t have pm: "pendingMatches (removePlayer ''sA'' declinedState) = pendingMatches declinedState"
    by blast
  from t q have eff: "activeQueue (removePlayer ''sA'' declinedState) = []"
    "activeSockets (removePlayer ''sA'' declinedState) = {}"
    by simp_all
  note t0 = removePlayer_resolves_and_is_idempotent[OF wf0 ids_apart_initState[of "{''C''}"], of "''C''",
      THEN conjunct2, THEN conjunct2, THEN conjunct2, THEN conjunct2, THEN spec, THEN spec,
      THEN spec, THEN spec, THEN spec, THEN mp, OF a0, THEN conjunct2, THEN spec, THEN spec,
      THEN spec, of 5 1500 False]
  from t0 have "\<exists>s3. addPlayer 5 ''C'' ''sC'' 1500 False
      (removePlayer ''C'' (after (addPlayer 0 ''C'' ''sC'' 1400 False initState) initState)) = Inr s3"
    by simp
  then have rt: "\<not> isl (addPlayer 5 ''C'' ''sC'' 1500 False
      (removePlayer ''C'' (after (addPlayer 0 ''C'' ''sC'' 1400 False initState) initState)))"
    by auto
  from wf ids idem eff pm rt show ?thesis by simp
qed

text \<open>
  The discipline on the identifiers is needed: called directly with an identifier that
  is the user id of one waiting player and the socket id of another, a second
  \<^verbatim>\<open>removePlayer\<close> removes the other player.
\<close>

lemma removePlayer_twice_colliding_identifiers:
  "queue_wf ambiguousState
   \<and> map fst (activeQueue ambiguousState) = [''x'', ''y'']
   \<and> map fst (activeQueue (removePlayer ''x'' ambiguousState)) = [''y'']
   \<and> map fst (activeQueue (removePlayer ''x'' (removePlayer ''x'' ambiguousState))) = []"
proof -
  have 1: "queue_wf ambiguousState" by code_simp
  have 2: "map fst (activeQueue ambiguousState) = [''x'', ''y'']" by code_simp
  have 3: "map fst (activeQueue (removePlayer ''x'' ambiguousState)) = [''y'']" by code_simp
  have 4: "map fst (activeQueue (removePlayer ''x'' (removePlayer ''x'' ambiguousState))) = []"
    by code_simp
  from 1 2 3 4 show ?thesis by simp
qed

end
